theory Spec2Isabelle
  imports Main "HOL-Library.Word" "HOL-Library.Sublist"
begin

section \<open>JavaScript strings\<close>

text \<open>
  A JavaScript string is a sequence of UTF-16 code units, and \<open>length\<close>, \<open>substring\<close>,
  \<open>split\<close>, \<open>includes\<close> and the \<open>trim\<close> family all work on code units.
  String literals of the source are written through \<open>js\<close>.
\<close>

type_synonym jschar = "16 word"
type_synonym jsstring = "jschar list"

definition js :: "string \<Rightarrow> jsstring" where
  "js s = map of_char s"

text \<open>
  The characters removed by \<open>String.prototype.trim\<close>, \<open>trimStart\<close> and \<open>trimEnd\<close>:
  ECMAScript's WhiteSpace and LineTerminator productions.
\<close>

definition isWhiteSpace :: "jschar \<Rightarrow> bool" where
  "isWhiteSpace c \<longleftrightarrow>
     c \<in> {0x9, 0xA, 0xB, 0xC, 0xD, 0x20, 0xA0, 0x1680, 0x2028, 0x2029, 0x202F, 0x205F,
          0x3000, 0xFEFF}
     \<or> (0x2000 \<le> c \<and> c \<le> 0x200A)"

definition trimStart :: "jsstring \<Rightarrow> jsstring" where
  "trimStart s = dropWhile isWhiteSpace s"

definition trimEnd :: "jsstring \<Rightarrow> jsstring" where
  "trimEnd s = rev (dropWhile isWhiteSpace (rev s))"

definition trim :: "jsstring \<Rightarrow> jsstring" where
  "trim s = trimEnd (trimStart s)"

text \<open>\<open>s.includes(pat)\<close>: does \<open>pat\<close> occur in \<open>s\<close> as a contiguous substring.\<close>

fun str_includes :: "jsstring \<Rightarrow> jsstring \<Rightarrow> bool" where
  "str_includes [] pat = (pat = [])"
| "str_includes (c # cs) pat = (prefix pat (c # cs) \<or> str_includes cs pat)"

text \<open>\<open>s.split(sep)\<close> for a separator of one code unit; the result is never empty.\<close>

fun split_on :: "jschar \<Rightarrow> jsstring \<Rightarrow> jsstring list" where
  "split_on sep [] = [[]]"
| "split_on sep (c # cs) =
     (if c = sep then [] # split_on sep cs
      else (case split_on sep cs of
              [] \<Rightarrow> [[c]]
            | piece # pieces \<Rightarrow> (c # piece) # pieces))"

text \<open>\<open>s.substring(0, n)\<close>.\<close>

definition substring0 :: "nat \<Rightarrow> jsstring \<Rightarrow> jsstring" where
  "substring0 n s = take n s"

text \<open>Truthiness of a value that is a string or \<open>undefined\<close>/\<open>null\<close>.\<close>

definition truthy :: "jsstring option \<Rightarrow> bool" where
  "truthy v \<longleftrightarrow> (case v of None \<Rightarrow> False | Some s \<Rightarrow> s \<noteq> [])"

section \<open>The remote call and what it can yield\<close>

text \<open>
  A thrown value is an \<open>Error\<close> object with its \<open>name\<close> and \<open>message\<close>, or something
  that is not an \<open>Error\<close> (a thrown primitive). The remote service is outside the
  repository: awaiting \<open>ai.models.generateContent(...)\<close> either throws or yields a
  response whose \<open>text\<close> field is a string or absent. That outcome is a parameter of
  the clients below.
\<close>

datatype thrown = JsError (name: jsstring) (message: jsstring) | NonError

type_synonym outcome = "thrown + jsstring option"

definition Error :: "string \<Rightarrow> thrown" where
  "Error msg = JsError (js ''Error'') (js msg)"

section \<open>Completion clients\<close>

text \<open>
  \<open>getCodeSuggestions\<close> of \<open>src/unnamed/part_000\<close> (the standalone client, first copy):
  \<open>response.text?.trimStart() ?? ''\<close>.
\<close>

definition getCodeSuggestions :: "jsstring option \<Rightarrow> outcome \<Rightarrow> thrown + jsstring" where
  "getCodeSuggestions API_KEY generateContent =
     (if \<not> truthy API_KEY then Inl (Error ''API_KEY environment variable is not set.'')
      else case generateContent of
        Inr response \<Rightarrow>
          (let text = (case response of None \<Rightarrow> [] | Some t \<Rightarrow> trimStart t)
           in if text = [] then Inr [] else Inr text)
      | Inl err \<Rightarrow>
          (case err of
             JsError n m \<Rightarrow>
               if str_includes m (js ''API key not valid'')
               then Inl (Error ''Invalid API Key. Please check your configuration.'')
               else Inl (Error ''Failed to get suggestions from Gemini.'')
           | NonError \<Rightarrow> Inl (Error ''Failed to get suggestions from Gemini.'')))"

text \<open>
  \<open>getCodeSuggestions\<close> as it stands in the second document of
  \<open>src/components/Editor.tsx\<close> (the standalone client, second copy):
  \<open>text ? text.trim() : ''\<close>.
\<close>

definition getCodeSuggestions_2 :: "jsstring option \<Rightarrow> outcome \<Rightarrow> thrown + jsstring" where
  "getCodeSuggestions_2 API_KEY generateContent =
     (if \<not> truthy API_KEY then Inl (Error ''API_KEY environment variable is not set.'')
      else case generateContent of
        Inr response \<Rightarrow> (if truthy response then Inr (trim (the response)) else Inr [])
      | Inl err \<Rightarrow>
          (case err of
             JsError n m \<Rightarrow>
               if str_includes m (js ''API key not valid'')
               then Inl (Error ''Invalid API Key. Please check your configuration.'')
               else Inl (Error ''Failed to get suggestions from Gemini.'')
           | NonError \<Rightarrow> Inl (Error ''Failed to get suggestions from Gemini.'')))"

text \<open>
  \<open>#getCodeSuggestion\<close> of \<open>src/main.js\<close> (the embedded client). \<open>ai\<close> says whether
  the private field \<open>#ai\<close> holds a client handle; \<open>signal_aborted\<close> is the value of
  \<open>signal.aborted\<close> read after the await. The function has no handler of its own: what
  the remote call throws propagates to the caller. The text is returned as
  \<open>text || ''\<close>, untrimmed.
\<close>

definition getCodeSuggestion :: "bool \<Rightarrow> outcome \<Rightarrow> bool \<Rightarrow> thrown + jsstring" where
  "getCodeSuggestion ai generateContent signal_aborted =
     (if \<not> ai then Inl (Error ''Gemini AI client not initialized.'')
      else case generateContent of
        Inl err \<Rightarrow> Inl err
      | Inr response \<Rightarrow>
          if signal_aborted then Inr []
          else Inr (if truthy response then the response else []))"

section \<open>Completion candidates of the embedded variant\<close>

record candidate =
  caption :: jsstring
  "value" :: jsstring
  score :: nat
  meta :: jsstring

text \<open>
  The object literal of \<open>#provideCompletions\<close>:
  \<open>caption: suggestion.split('\n')[0].substring(0, 50) + '...'\<close>.
\<close>

definition make_candidate :: "jsstring \<Rightarrow> candidate" where
  "make_candidate suggestion =
     \<lparr> caption = substring0 50 (hd (split_on 0xA suggestion)) @ js ''...'',
       value = suggestion,
       score = 1000,
       meta = js ''Gemini AI'' \<rparr>"

section \<open>The standalone editor: \<open>src/App.tsx\<close>\<close>

text \<open>
  The component's state hooks and refs, together with the parts of the JavaScript
  runtime its behaviour depends on: the abort controllers created so far (identified by
  numbers; \<open>aborted\<close> holds those whose signal is aborted), the pending timers
  (handle, due time in milliseconds, job), the calls of \<open>fetchSuggestions\<close> that are
  suspended at their \<open>await\<close> (keyed by the controller whose signal they hold), and two
  logs: the snippets \<open>fetchSuggestions\<close> was invoked with (\<open>fetched\<close>) and the
  snippets sent to the remote service (\<open>calls\<close>). \<open>cleanup\<close> is the closure returned
  by the last run of the debounce effect: its timer handle and its controller.
\<close>

datatype task = is_fetch: FetchTask (fetch_code: jsstring) (fetch_signal: nat) | CursorTask nat

record app =
  code :: jsstring
  inlineSuggestion :: jsstring
  isLoading :: bool
  error :: "jsstring option"
  requestAbortController :: "nat option"
  editorRef :: bool
  selection :: "nat \<times> nat"
  env_API_KEY :: "jsstring option"
  aborted :: "nat set"
  cleanup :: "(nat \<times> nat) option"
  timers :: "(nat \<times> nat \<times> task) list"
  pending :: "(nat \<times> jsstring) list"
  fetched :: "jsstring list"
  calls :: "jsstring list"
  nextId :: nat

type_synonym client = "jsstring option \<Rightarrow> outcome \<Rightarrow> thrown + jsstring"

definition abort :: "nat \<Rightarrow> app \<Rightarrow> app" where
  "abort controller s = s\<lparr>aborted := insert controller (aborted s)\<rparr>"

definition setTimeout :: "nat \<Rightarrow> nat \<Rightarrow> task \<Rightarrow> app \<Rightarrow> app" where
  "setTimeout now delay job s =
     s\<lparr>timers := timers s @ [(nextId s, now + delay, job)], nextId := nextId s + 1\<rparr>"

definition clearTimeout :: "nat \<Rightarrow> app \<Rightarrow> app" where
  "clearTimeout handler s = s\<lparr>timers := filter (\<lambda>(h, d, j). h \<noteq> handler) (timers s)\<rparr>"

text \<open>
  \<open>fetchSuggestions\<close> from the \<open>await\<close> on: the \<open>try\<close> continuation, the \<open>catch\<close> and the
  \<open>finally\<close>, each guarded by \<open>!signal.aborted\<close>. \<open>result\<close> is what awaiting
  \<open>getCodeSuggestions(currentCode)\<close> gave.
\<close>

definition fetchSuggestions_resume :: "nat \<Rightarrow> thrown + jsstring \<Rightarrow> app \<Rightarrow> app" where
  "fetchSuggestions_resume signal result s =
     (let s1 = (case result of
                  Inr r \<Rightarrow> if signal \<notin> aborted s then s\<lparr>inlineSuggestion := r\<rparr> else s
                | Inl err \<Rightarrow>
                    if signal \<notin> aborted s
                    then s\<lparr>error := Some (case err of JsError n m \<Rightarrow> m
                                           | NonError \<Rightarrow> js ''An unknown error occurred.''),
                           inlineSuggestion := []\<rparr>
                    else s)
      in if signal \<notin> aborted s1 then s1\<lparr>isLoading := False\<rparr> else s1)"

text \<open>
  \<open>fetchSuggestions\<close> up to the \<open>await\<close>. Without an API key the client throws before
  any remote call (its result then does not depend on the outcome passed), and the
  handlers run at once; with a key the remote call is issued and the function is
  suspended until the response event.
\<close>

definition fetchSuggestions :: "client \<Rightarrow> jsstring \<Rightarrow> nat \<Rightarrow> app \<Rightarrow> app" where
  "fetchSuggestions getSuggestions currentCode signal s =
     (let s0 = s\<lparr>fetched := fetched s @ [currentCode]\<rparr>
      in if length (trim currentCode) < 3 then s0\<lparr>inlineSuggestion := []\<rparr>
         else let s1 = s0\<lparr>isLoading := True, error := None\<rparr>
              in if \<not> truthy (env_API_KEY s1)
                 then fetchSuggestions_resume signal (getSuggestions (env_API_KEY s1) (Inr None)) s1
                 else s1\<lparr>calls := calls s1 @ [currentCode],
                         pending := pending s1 @ [(signal, currentCode)]\<rparr>)"

text \<open>The debounce effect (dependencies \<open>[code, fetchSuggestions]\<close>) and its cleanup.\<close>

definition useEffect_cleanup :: "app \<Rightarrow> app" where
  "useEffect_cleanup s =
     (case cleanup s of
        None \<Rightarrow> s
      | Some (handler, controller) \<Rightarrow> abort controller (clearTimeout handler s))"

definition useEffect_run :: "nat \<Rightarrow> app \<Rightarrow> app" where
  "useEffect_run now s =
     (let s1 = (case requestAbortController s of Some c \<Rightarrow> abort c s | None \<Rightarrow> s);
          controller = nextId s1;
          s2 = s1\<lparr>requestAbortController := Some controller, nextId := nextId s1 + 1\<rparr>;
          handler = nextId s2;
          s3 = setTimeout now 500 (FetchTask (code s2) controller) s2
      in s3\<lparr>cleanup := Some (handler, controller)\<rparr>)"

text \<open>
  \<open>setCode\<close> followed by the render it causes: React re-runs the effect (cleanup of the
  previous run first) only when the dependency \<open>code\<close> has changed.
\<close>

definition setCode :: "nat \<Rightarrow> jsstring \<Rightarrow> app \<Rightarrow> app" where
  "setCode now v s =
     (if v = code s then s else useEffect_run now (useEffect_cleanup (s\<lparr>code := v\<rparr>)))"

definition handleCodeChange :: "nat \<Rightarrow> jsstring \<Rightarrow> app \<Rightarrow> app" where
  "handleCodeChange now v s = (setCode now v s)\<lparr>inlineSuggestion := []\<rparr>"

text \<open>
  \<open>handleKeyDown\<close> returns whether \<open>e.preventDefault()\<close> was called, and the new state.
  The cursor move is a zero-delay timer registered inside the handler.
\<close>

definition handleKeyDown :: "nat \<Rightarrow> jsstring \<Rightarrow> app \<Rightarrow> bool \<times> app" where
  "handleKeyDown now key s =
     (if key = js ''Tab'' \<and> inlineSuggestion s \<noteq> []
      then (let newCode = code s @ inlineSuggestion s;
                s1 = setTimeout now 0 (CursorTask (length newCode)) s
            in (True, (setCode now newCode s1)\<lparr>inlineSuggestion := []\<rparr>))
      else (False, s))"

fun run_task :: "client \<Rightarrow> task \<Rightarrow> app \<Rightarrow> app" where
  "run_task getSuggestions (FetchTask currentCode signal) s =
     fetchSuggestions getSuggestions currentCode signal s"
| "run_task getSuggestions (CursorTask n) s =
     (if editorRef s then s\<lparr>selection := (n, n)\<rparr> else s)"

text \<open>
  Time passes up to \<open>now\<close>: the timers that are due fire in the order of their due
  times (registration order among equals). No job of this program registers a timer.
\<close>

definition advance :: "client \<Rightarrow> nat \<Rightarrow> app \<Rightarrow> app" where
  "advance getSuggestions now s =
     (let due = sort_key (\<lambda>(h, d, j). d) (filter (\<lambda>(h, d, j). d \<le> now) (timers s));
          s1 = s\<lparr>timers := filter (\<lambda>(h, d, j). \<not> d \<le> now) (timers s)\<rparr>
      in fold (\<lambda>(h, d, j). run_task getSuggestions j) due s1)"

text \<open>The response to the remote call of the suspended \<open>fetchSuggestions\<close> holding \<open>signal\<close>.\<close>

definition respond :: "client \<Rightarrow> nat \<Rightarrow> outcome \<Rightarrow> app \<Rightarrow> app" where
  "respond getSuggestions signal out s =
     (case map_of (pending s) signal of
        None \<Rightarrow> s
      | Some snippet \<Rightarrow>
          fetchSuggestions_resume signal (getSuggestions (env_API_KEY s) out)
            (s\<lparr>pending := filter (\<lambda>(c, t). c \<noteq> signal) (pending s)\<rparr>))"

datatype app_event =
    Change nat jsstring
  | KeyDown nat jsstring
  | Respond nat nat outcome
  | Wait nat

fun app_step :: "client \<Rightarrow> app_event \<Rightarrow> app \<Rightarrow> app" where
  "app_step g (Change t v) s = handleCodeChange t v (advance g t s)"
| "app_step g (KeyDown t key) s = snd (handleKeyDown t key (advance g t s))"
| "app_step g (Respond t signal out) s = respond g signal out (advance g t s)"
| "app_step g (Wait t) s = advance g t s"

definition run_app :: "client \<Rightarrow> app_event list \<Rightarrow> app \<Rightarrow> app" where
  "run_app g evs s = fold (app_step g) evs s"

text \<open>The component after its first render and the first run of the effect, at time 0.\<close>

definition App_mount :: "jsstring option \<Rightarrow> app" where
  "App_mount key =
     useEffect_run 0
       \<lparr> code = js ''function greet(name) {'' @ [0xA] @ js ''  '',
         inlineSuggestion = [],
         isLoading = False,
         error = None,
         requestAbortController = None,
         editorRef = True,
         selection = (0, 0),
         env_API_KEY = key,
         aborted = {},
         cleanup = None,
         timers = [],
         pending = [],
         fetched = [],
         calls = [],
         nextId = 0 \<rparr>"

section \<open>The embedded plugin: \<open>src/main.js\<close>\<close>

text \<open>
  The private fields of \<open>GeminiAutocompletePlugin\<close> (\<open>ai\<close> says whether \<open>#ai\<close> holds a
  client handle, \<open>p_isLoading\<close> is \<open>#isLoading\<close>), whether the provider has been
  registered with the host, and the runtime and host state the plugin acts on: aborted
  controllers, pending timers (handle, due time, invocation, the \<open>pos\<close> the invocation
  captured), the timer callbacks suspended at their \<open>await\<close> (invocation and the
  controller whose signal was handed to \<open>#getCodeSuggestion\<close>), the promises resolved so
  far (invocation and the list it was resolved with), the toasts and alerts shown, the
  invocations whose timer callback has run (\<open>fired\<close>), the snippets sent to the
  remote service, and the live text of the editing session.
  An invocation of \<open>#provideCompletions\<close> is identified by a number. The cursor position
  is an offset into the session text, so that \<open>session.getTextRange\<close> from the start to
  \<open>pos\<close> is \<open>take pos\<close>; the language mode only enters the prompt and is left out.
\<close>

record plugin =
  ai :: bool
  abortController :: "nat option"
  debounceTimeout :: "nat option"
  p_isLoading :: bool
  registered :: bool
  session :: jsstring
  p_aborted :: "nat set"
  p_timers :: "(nat \<times> nat \<times> nat \<times> nat) list"
  awaiting :: "(nat \<times> nat) list"
  resolved :: "(nat \<times> candidate list) list"
  toasts :: "jsstring list"
  alerts :: "(jsstring \<times> jsstring) list"
  fired :: "nat list"
  p_calls :: "jsstring list"
  p_nextId :: nat

definition new_plugin :: plugin where
  "new_plugin =
     \<lparr> ai = False, abortController = None, debounceTimeout = None, p_isLoading = False,
       registered = False, session = [], p_aborted = {}, p_timers = [], awaiting = [],
       resolved = [], toasts = [], alerts = [], fired = [], p_calls = [], p_nextId = 0 \<rparr>"

definition p_abort :: "nat \<Rightarrow> plugin \<Rightarrow> plugin" where
  "p_abort controller s = s\<lparr>p_aborted := insert controller (p_aborted s)\<rparr>"

text \<open>\<open>clearTimeout\<close> of \<open>null\<close> or of a timer that has fired does nothing.\<close>

definition p_clearTimeout :: "nat option \<Rightarrow> plugin \<Rightarrow> plugin" where
  "p_clearTimeout handler s =
     (case handler of
        None \<Rightarrow> s
      | Some h \<Rightarrow> s\<lparr>p_timers := filter (\<lambda>(h', d, i, pos). h' \<noteq> h) (p_timers s)\<rparr>)"

definition toast :: "jsstring \<Rightarrow> plugin \<Rightarrow> plugin" where
  "toast msg s = s\<lparr>toasts := toasts s @ [msg]\<rparr>"

definition alert :: "jsstring \<Rightarrow> jsstring \<Rightarrow> plugin \<Rightarrow> plugin" where
  "alert title msg s = s\<lparr>alerts := alerts s @ [(title, msg)]\<rparr>"

text \<open>Calling \<open>resolve\<close> of a promise that is already resolved has no effect.\<close>

definition resolve :: "nat \<Rightarrow> candidate list \<Rightarrow> plugin \<Rightarrow> plugin" where
  "resolve call items s =
     (case map_of (resolved s) call of
        None \<Rightarrow> s\<lparr>resolved := resolved s @ [(call, items)]\<rparr>
      | Some v \<Rightarrow> s)"

text \<open>
  \<open>init\<close>. \<open>geminiApiKey\<close> is the setting read from the host; \<open>throws\<close> says which
  statement of the \<open>try\<close> block throws, if any: reading the settings, constructing the
  client, registering the provider, or the final toast. Whatever is thrown, the handler
  shows the second alert; the statements before the throw have taken effect.
\<close>

datatype init_throw =
    NoThrow
  | ThrowsAtSettings
  | ThrowsAtConstructor
  | ThrowsAtRegister
  | ThrowsAtToast

definition init_failed :: "plugin \<Rightarrow> plugin" where
  "init_failed s =
     alert (js ''Error'')
       (js ''Failed to initialize Gemini Autocomplete plugin. Check the Acode app console for details.'') s"

definition init :: "jsstring option \<Rightarrow> init_throw \<Rightarrow> plugin \<Rightarrow> plugin" where
  "init geminiApiKey throws s =
     (if throws = ThrowsAtSettings then init_failed s
      else if \<not> truthy geminiApiKey
      then alert (js ''Error'')
             (js ''Gemini API Key is not set. Please configure it in the plugin settings.'') s
      else if throws = ThrowsAtConstructor then init_failed s
      else let s1 = s\<lparr>ai := True\<rparr>
           in if throws = ThrowsAtRegister then init_failed s1
              else let s2 = s1\<lparr>registered := True\<rparr>
                   in if throws = ThrowsAtToast then init_failed s2
                      else toast (js ''Gemini Autocomplete is active.'') s2)"

definition destroy :: "plugin \<Rightarrow> plugin" where
  "destroy s =
     p_clearTimeout (debounceTimeout s)
       (case abortController s of None \<Rightarrow> s | Some c \<Rightarrow> p_abort c s)"

text \<open>
  \<open>#provideCompletions\<close>: the body of the promise executor. The promise of the invocation
  stays pending until some timer callback calls its \<open>resolve\<close>.
\<close>

definition provideCompletions :: "nat \<Rightarrow> nat \<Rightarrow> plugin \<Rightarrow> plugin" where
  "provideCompletions now pos s =
     (let s1 = p_clearTimeout (debounceTimeout s) s;
          call = p_nextId s1;
          handler = p_nextId s1 + 1
      in s1\<lparr>debounceTimeout := Some handler,
             p_timers := p_timers s1 @ [(handler, now + 700, call, pos)],
             p_nextId := p_nextId s1 + 2\<rparr>)"

text \<open>
  The \<open>catch\<close> block of the timer callback. For a thrown value that is not an \<open>Error\<close>
  the handler itself fails with a TypeError (reading \<open>includes\<close> of \<open>undefined\<close>), so
  neither the toast nor \<open>resolve([])\<close> is reached.
\<close>

definition provide_catch :: "nat \<Rightarrow> thrown \<Rightarrow> plugin \<Rightarrow> plugin" where
  "provide_catch call err s =
     (case err of
        JsError n m \<Rightarrow>
          resolve call []
            (if n \<noteq> js ''AbortError''
             then (let errorMessage =
                         (if str_includes m (js ''API key not valid'')
                          then js ''Invalid API Key. Please check your plugin settings.''
                          else m)
                   in toast (js ''Gemini Error: '' @ errorMessage) s)
             else s)
      | NonError \<Rightarrow> s)"

text \<open>
  The timer callback from its \<open>await\<close> on: \<open>result\<close> is what awaiting
  \<open>#getCodeSuggestion\<close> gave. The test of line 123 reads the controller that is in the
  field \<open>#abortController\<close> at that moment; reading it from \<open>null\<close> would itself throw
  a TypeError into the \<open>catch\<close> block. The \<open>finally\<close> block clears \<open>#isLoading\<close>.
\<close>

definition provide_resume :: "nat \<Rightarrow> thrown + jsstring \<Rightarrow> plugin \<Rightarrow> plugin" where
  "provide_resume call result s =
     (let s1 = (case result of
                  Inr suggestion \<Rightarrow>
                    if suggestion = [] then resolve call [] s
                    else (case abortController s of
                            None \<Rightarrow>
                              provide_catch call
                                (JsError (js ''TypeError'')
                                   (js ''Cannot read properties of null (reading 'signal')'')) s
                          | Some c \<Rightarrow>
                              if c \<notin> p_aborted s
                              then resolve call [make_candidate suggestion] s
                              else resolve call [] s)
                | Inl err \<Rightarrow> provide_catch call err s)
      in s1\<lparr>p_isLoading := False\<rparr>)"

text \<open>The timer callback up to its \<open>await\<close> (or to its end, when it does not get there).\<close>

definition debounced :: "nat \<Rightarrow> nat \<Rightarrow> plugin \<Rightarrow> plugin" where
  "debounced call pos s =
     (let s1 = (if p_isLoading s
                then (case abortController s of None \<Rightarrow> s | Some c \<Rightarrow> p_abort c s)
                else s);
          controller = p_nextId s1;
          s2 = s1\<lparr>p_isLoading := True, abortController := Some controller,
                  fired := fired s1 @ [call], p_nextId := p_nextId s1 + 1\<rparr>;
          codeBeforeCursor = take pos (session s2)
      in if length (trim codeBeforeCursor) < 10
         then (resolve call [] s2)\<lparr>p_isLoading := False\<rparr>
         else let s3 = toast (js ''Gemini is thinking...'') s2
              in if \<not> ai s3
                 then provide_resume call (getCodeSuggestion (ai s3) (Inr None) False) s3
                 else s3\<lparr>p_calls := p_calls s3 @ [codeBeforeCursor],
                         awaiting := awaiting s3 @ [(call, controller)]\<rparr>)"

definition p_advance :: "nat \<Rightarrow> plugin \<Rightarrow> plugin" where
  "p_advance now s =
     (let due = sort_key (\<lambda>(h, d, i, pos). d) (filter (\<lambda>(h, d, i, pos). d \<le> now) (p_timers s));
          s1 = s\<lparr>p_timers := filter (\<lambda>(h, d, i, pos). \<not> d \<le> now) (p_timers s)\<rparr>
      in fold (\<lambda>(h, d, i, pos). debounced i pos) due s1)"

text \<open>
  The remote call of invocation \<open>call\<close> comes back with \<open>out\<close>: the rest of
  \<open>#getCodeSuggestion\<close> runs (its test of \<open>#ai\<close> was passed when the call was
  issued), then the rest of the timer callback.
\<close>

definition p_respond :: "nat \<Rightarrow> outcome \<Rightarrow> plugin \<Rightarrow> plugin" where
  "p_respond call out s =
     (case map_of (awaiting s) call of
        None \<Rightarrow> s
      | Some signal \<Rightarrow>
          provide_resume call (getCodeSuggestion True out (signal \<in> p_aborted s))
            (s\<lparr>awaiting := filter (\<lambda>(i, c). i \<noteq> call) (awaiting s)\<rparr>))"

text \<open>
  What can happen to the plugin, each at a time: the host initialises it or unmounts
  it, the host (the session text now being \<open>doc\<close>) asks the registered provider for
  completions at \<open>pos\<close>, a remote call comes back, or time just passes. The host can
  only call a provider that has been registered.
\<close>

datatype plugin_event =
    HostInit nat "jsstring option" init_throw
  | HostDestroy nat
  | Provide nat jsstring nat
  | Response nat nat outcome
  | Idle nat

fun plugin_step :: "plugin_event \<Rightarrow> plugin \<Rightarrow> plugin" where
  "plugin_step (HostInit t key throws) s = init key throws (p_advance t s)"
| "plugin_step (HostDestroy t) s = destroy (p_advance t s)"
| "plugin_step (Provide t doc pos) s =
     (let s1 = (p_advance t s)\<lparr>session := doc\<rparr>
      in if registered s1 then provideCompletions t pos s1 else s1)"
| "plugin_step (Response t call out) s = p_respond call out (p_advance t s)"
| "plugin_step (Idle t) s = p_advance t s"

definition run_plugin :: "plugin_event list \<Rightarrow> plugin \<Rightarrow> plugin" where
  "run_plugin evs s = fold plugin_step evs s"

section \<open>Invariants and notions used in the statements\<close>

text \<open>
  What holds of the plugin in every state it can reach: a registered provider has a
  client handle, timers and suspended callbacks exist only for a registered provider
  with a client handle, and every pending timer is the one whose handle is in
  \<open>#debounceTimeout\<close>.
\<close>

definition plugin_inv :: "plugin \<Rightarrow> bool" where
  "plugin_inv s \<longleftrightarrow>
     (registered s \<longrightarrow> ai s)
     \<and> (p_timers s \<noteq> [] \<longrightarrow> registered s)
     \<and> (awaiting s \<noteq> [] \<longrightarrow> ai s)
     \<and> (\<forall>(h, d, c, pos) \<in> set (p_timers s). debounceTimeout s = Some h)"

text \<open>
  What holds of the standalone component in every state it can reach: a pending
  debounce timer is the one the effect's cleanup will clear, handles in use are below
  the next free one, and the textarea is mounted.
\<close>

definition app_inv :: "app \<Rightarrow> bool" where
  "app_inv s \<longleftrightarrow>
     (\<forall>(h, d, j) \<in> set (timers s). is_fetch j \<longrightarrow> (\<exists>c. cleanup s = Some (h, c)))
     \<and> (\<forall>h c. cleanup s = Some (h, c) \<longrightarrow> h < nextId s)
     \<and> editorRef s"

text \<open>The pending debounce timers, and the snippets of those due at a given time.\<close>

definition fetch_timers :: "app \<Rightarrow> (nat \<times> nat \<times> task) list" where
  "fetch_timers s = filter (\<lambda>(h, d, j). is_fetch j) (timers s)"

definition due_fetches :: "nat \<Rightarrow> app \<Rightarrow> jsstring list" where
  "due_fetches now s =
     map (\<lambda>(h, d, j). fetch_code j)
       (sort_key (\<lambda>(h, d, j). d) (filter (\<lambda>(h, d, j). d \<le> now) (fetch_timers s)))"

text \<open>
  A burst: each event comes no earlier than the previous one and less than the window
  \<open>w\<close> after it; each edit changes the text.
\<close>

fun within_window :: "nat \<Rightarrow> nat list \<Rightarrow> bool" where
  "within_window w [] = True"
| "within_window w [t] = True"
| "within_window w (t # t' # ts) = (t \<le> t' \<and> t' < t + w \<and> within_window w (t' # ts))"

fun changes :: "jsstring \<Rightarrow> jsstring list \<Rightarrow> bool" where
  "changes v [] = True"
| "changes v (v' # vs) = (v' \<noteq> v \<and> changes v' vs)"

text \<open>
  The standalone component is debouncing the text \<open>v\<close> set at time \<open>t\<close>: one
  debounce timer is pending, for \<open>v\<close>, due at \<open>t + 500\<close>, and it is the one the
  cleanup knows.
\<close>

definition debouncing :: "app \<Rightarrow> nat \<Rightarrow> jsstring \<Rightarrow> bool" where
  "debouncing s t v \<longleftrightarrow>
     (\<exists>h c. fetch_timers s = [(h, t + 500, FetchTask v c)] \<and> cleanup s = Some (h, c))
     \<and> code s = v"

text \<open>
  The plugin is debouncing an invocation made at time \<open>t\<close> with cursor \<open>pos\<close>: its
  timer, due at \<open>t + 700\<close>, is the only one pending and is the one in
  \<open>#debounceTimeout\<close>; the provider is registered and has its client handle.
\<close>

definition p_debouncing :: "plugin \<Rightarrow> nat \<Rightarrow> nat \<Rightarrow> bool" where
  "p_debouncing s t pos \<longleftrightarrow>
     (\<exists>h call. p_timers s = [(h, t + 700, call, pos)] \<and> debounceTimeout s = Some h)
     \<and> registered s \<and> ai s"

text \<open>
  Invocation \<open>c\<close> of the provider is abandoned: its promise is not resolved, and no
  pending timer and no suspended callback belongs to it (so nothing holds its
  \<open>resolve\<close> any more).
\<close>

definition abandoned :: "nat \<Rightarrow> plugin \<Rightarrow> bool" where
  "abandoned c s \<longleftrightarrow>
     map_of (resolved s) c = None
     \<and> c < p_nextId s
     \<and> (\<forall>(h, d, i, pos) \<in> set (p_timers s). i \<noteq> c)
     \<and> (\<forall>(i, signal) \<in> set (awaiting s). i \<noteq> c)"

text \<open>
  Every promise resolved so far was resolved with the empty list or with the one
  candidate built from a non-empty suggestion.
\<close>

definition resolved_ok :: "plugin \<Rightarrow> bool" where
  "resolved_ok s \<longleftrightarrow>
     (\<forall>(call, items) \<in> set (resolved s).
        items = [] \<or> (\<exists>suggestion. suggestion \<noteq> [] \<and> items = [make_candidate suggestion]))"

text \<open>
  Every invocation that has a resolved promise, a pending timer or a suspended
  callback was numbered before the next free number.
\<close>

definition ids_issued :: "plugin \<Rightarrow> bool" where
  "ids_issued s \<longleftrightarrow>
     (\<forall>(c, items) \<in> set (resolved s). c < p_nextId s)
     \<and> (\<forall>(h, d, i, pos) \<in> set (p_timers s). i < p_nextId s)
     \<and> (\<forall>(i, signal) \<in> set (awaiting s). i < p_nextId s)"

section \<open>Facts about the string operations\<close>

lemma split_on_nonempty: "split_on sep s \<noteq> []"
  by (induction s) (auto split: list.splits)

lemma hd_split_on: "hd (split_on sep s) = takeWhile (\<lambda>c. c \<noteq> sep) s"
proof (induction s)
  case Nil
  show ?case by simp
next
  case (Cons c cs)
  show ?case
  proof (cases "split_on sep cs")
    case Nil
    with split_on_nonempty show ?thesis by blast
  next
    case (Cons piece pieces)
    with Cons.IH show ?thesis by auto
  qed
qed

lemma str_includes_iff: "str_includes s pat \<longleftrightarrow> (\<exists>pre post. s = pre @ pat @ post)"
proof (induction s)
  case Nil
  show ?case by auto
next
  case (Cons c cs)
  show ?case
  proof
    assume "str_includes (c # cs) pat"
    then consider "prefix pat (c # cs)" | "str_includes cs pat" by auto
    then show "\<exists>pre post. c # cs = pre @ pat @ post"
    proof cases
      case 1
      then obtain post where "c # cs = pat @ post" by (auto simp: prefix_def)
      then have "c # cs = [] @ pat @ post" by simp
      then show ?thesis by blast
    next
      case 2
      with Cons.IH obtain pre post where "cs = pre @ pat @ post" by blast
      then have "c # cs = (c # pre) @ pat @ post" by simp
      then show ?thesis by blast
    qed
  next
    assume "\<exists>pre post. c # cs = pre @ pat @ post"
    then obtain pre post where eq: "c # cs = pre @ pat @ post" by blast
    show "str_includes (c # cs) pat"
    proof (cases pre)
      case Nil
      with eq have "prefix pat (c # cs)" by (simp add: prefix_def)
      then show ?thesis by simp
    next
      case (Cons p ps)
      with eq have "cs = ps @ pat @ post" by simp
      with Cons.IH have "str_includes cs pat" by blast
      then show ?thesis by simp
    qed
  qed
qed

lemma trimStart_decomp:
  "\<exists>pre. t = pre @ trimStart t \<and> (\<forall>c \<in> set pre. isWhiteSpace c)"
proof -
  have "t = takeWhile isWhiteSpace t @ trimStart t"
    by (simp add: trimStart_def)
  moreover have "\<forall>c \<in> set (takeWhile isWhiteSpace t). isWhiteSpace c"
    by (auto dest: set_takeWhileD)
  ultimately show ?thesis by blast
qed

lemma trimStart_hd: "trimStart t \<noteq> [] \<Longrightarrow> \<not> isWhiteSpace (hd (trimStart t))"
  unfolding trimStart_def by (rule hd_dropWhile)

lemma trimEnd_decomp:
  "\<exists>post. t = trimEnd t @ post \<and> (\<forall>c \<in> set post. isWhiteSpace c)"
proof -
  have "rev (takeWhile isWhiteSpace (rev t) @ dropWhile isWhiteSpace (rev t)) = t"
    by (simp only: takeWhile_dropWhile_id rev_rev_ident)
  then have "rev (dropWhile isWhiteSpace (rev t)) @ rev (takeWhile isWhiteSpace (rev t)) = t"
    by (simp only: rev_append)
  then have "t = trimEnd t @ rev (takeWhile isWhiteSpace (rev t))"
    by (simp only: trimEnd_def)
  moreover have "\<forall>c \<in> set (rev (takeWhile isWhiteSpace (rev t))). isWhiteSpace c"
    by (auto dest: set_takeWhileD)
  ultimately show ?thesis by blast
qed

lemma trimEnd_last: "trimEnd t \<noteq> [] \<Longrightarrow> \<not> isWhiteSpace (last (trimEnd t))"
proof -
  assume ne: "trimEnd t \<noteq> []"
  then have "dropWhile isWhiteSpace (rev t) \<noteq> []" by (simp add: trimEnd_def)
  then have "\<not> isWhiteSpace (hd (dropWhile isWhiteSpace (rev t)))" by (rule hd_dropWhile)
  moreover have "last (trimEnd t) = hd (dropWhile isWhiteSpace (rev t))"
    by (simp add: trimEnd_def last_rev)
  ultimately show ?thesis by simp
qed

lemma trimEnd_keeps_hd: "trimEnd t \<noteq> [] \<Longrightarrow> hd (trimEnd t) = hd t"
proof -
  assume ne: "trimEnd t \<noteq> []"
  obtain post where "t = trimEnd t @ post" using trimEnd_decomp by blast
  then have "hd t = hd (trimEnd t @ post)" by simp
  with ne show ?thesis by simp
qed

lemma trim_decomp:
  "\<exists>pre post. t = pre @ trim t @ post
      \<and> (\<forall>c \<in> set pre. isWhiteSpace c) \<and> (\<forall>c \<in> set post. isWhiteSpace c)"
proof -
  obtain pre where pre: "t = pre @ trimStart t" "\<forall>c \<in> set pre. isWhiteSpace c"
    using trimStart_decomp by blast
  obtain post where post: "trimStart t = trimEnd (trimStart t) @ post"
    "\<forall>c \<in> set post. isWhiteSpace c"
    using trimEnd_decomp by blast
  from pre(1) post(1) have "t = pre @ trim t @ post" by (simp add: trim_def)
  with pre(2) post(2) show ?thesis by blast
qed

lemma trim_ends:
  assumes "trim t \<noteq> []"
  shows "\<not> isWhiteSpace (hd (trim t)) \<and> \<not> isWhiteSpace (last (trim t))"
proof -
  from assms have ne: "trimEnd (trimStart t) \<noteq> []" by (simp add: trim_def)
  then have "trimStart t \<noteq> []" by (auto simp: trimEnd_def)
  then have "\<not> isWhiteSpace (hd (trimStart t))" by (rule trimStart_hd)
  with trimEnd_keeps_hd [OF ne] have "\<not> isWhiteSpace (hd (trim t))" by (simp add: trim_def)
  moreover from trimEnd_last [OF ne] have "\<not> isWhiteSpace (last (trim t))"
    by (simp add: trim_def)
  ultimately show ?thesis by blast
qed

section \<open>Response handling of the three clients\<close>

text \<open>
  C3 (as amended). For every completion text \<open>t\<close> returned by the remote service (and
  an API key present): the second copy of the standalone client returns \<open>t\<close> with its
  leading and trailing whitespace removed; the first copy (\<open>part_000\<close>) returns \<open>t\<close>
  with its leading whitespace only removed, the rest of \<open>t\<close> unchanged; the embedded
  client, when not aborted, returns \<open>t\<close> itself, untrimmed.
\<close>

theorem C3_response_trimming:
  assumes "truthy key"
  shows "(\<exists>r pre post. getCodeSuggestions_2 key (Inr (Some t)) = Inr r
            \<and> t = pre @ r @ post
            \<and> (\<forall>c \<in> set pre. isWhiteSpace c) \<and> (\<forall>c \<in> set post. isWhiteSpace c)
            \<and> (r \<noteq> [] \<longrightarrow> \<not> isWhiteSpace (hd r) \<and> \<not> isWhiteSpace (last r)))
       \<and> (\<exists>r pre. getCodeSuggestions key (Inr (Some t)) = Inr r
            \<and> t = pre @ r
            \<and> (\<forall>c \<in> set pre. isWhiteSpace c)
            \<and> (r \<noteq> [] \<longrightarrow> \<not> isWhiteSpace (hd r)))
       \<and> getCodeSuggestion True (Inr (Some t)) False = Inr t"
proof (intro conjI)
  obtain pre post where d: "t = pre @ trim t @ post"
    "\<forall>c \<in> set pre. isWhiteSpace c" "\<forall>c \<in> set post. isWhiteSpace c"
    using trim_decomp by blast
  show "\<exists>r pre post. getCodeSuggestions_2 key (Inr (Some t)) = Inr r
            \<and> t = pre @ r @ post
            \<and> (\<forall>c \<in> set pre. isWhiteSpace c) \<and> (\<forall>c \<in> set post. isWhiteSpace c)
            \<and> (r \<noteq> [] \<longrightarrow> \<not> isWhiteSpace (hd r) \<and> \<not> isWhiteSpace (last r))"
  proof (cases "t = []")
    case True
    with assms have "getCodeSuggestions_2 key (Inr (Some t)) = Inr []"
      by (simp add: getCodeSuggestions_2_def truthy_def)
    moreover from True have "t = [] @ [] @ []" by simp
    ultimately show ?thesis by force
  next
    case False
    with assms have "getCodeSuggestions_2 key (Inr (Some t)) = Inr (trim t)"
      by (simp add: getCodeSuggestions_2_def truthy_def)
    with d trim_ends [of t] show ?thesis by blast
  qed
next
  obtain pre where d: "t = pre @ trimStart t" "\<forall>c \<in> set pre. isWhiteSpace c"
    using trimStart_decomp by blast
  from assms have "getCodeSuggestions key (Inr (Some t)) = Inr (trimStart t)"
    by (simp add: getCodeSuggestions_def Let_def)
  with d trimStart_hd [of t]
  show "\<exists>r pre. getCodeSuggestions key (Inr (Some t)) = Inr r
            \<and> t = pre @ r
            \<and> (\<forall>c \<in> set pre. isWhiteSpace c)
            \<and> (r \<noteq> [] \<longrightarrow> \<not> isWhiteSpace (hd r))"
    by blast
next
  show "getCodeSuggestion True (Inr (Some t)) False = Inr t"
    by (simp add: getCodeSuggestion_def truthy_def)
qed

theorem C3_response_trimming_witness:
  "truthy (Some (js ''k''))
   \<and> getCodeSuggestion True (Inr (Some (js '' x ''))) False = Inr (js '' x '')"
  using C3_response_trimming [of "Some (js ''k'')" "js '' x ''"]
  by (simp add: truthy_def js_def)

text \<open>
  The claim as written fails: the embedded client hands back a text that still starts
  with whitespace, and the first copy of the standalone client one that still ends
  with whitespace.
\<close>

theorem C3_counterexample:
  "getCodeSuggestion True (Inr (Some (js '' x''))) False = Inr (js '' x'')
   \<and> isWhiteSpace (hd (js '' x''))
   \<and> getCodeSuggestions (Some (js ''k'')) (Inr (Some (js ''x ''))) = Inr (js ''x '')
   \<and> isWhiteSpace (last (js ''x ''))"
  by (simp add: getCodeSuggestion_def getCodeSuggestions_def truthy_def js_def
      trimStart_def isWhiteSpace_def)

section \<open>Failure mapping\<close>

lemma toasts_resolve: "toasts (resolve call items s) = toasts s"
  by (simp add: resolve_def split: option.splits)

text \<open>
  C8 (as amended). With \<open>contains\<close> meaning that the error message has
  \<open>API key not valid\<close> as a substring: both copies of the standalone client re-raise
  a failure of the remote call as an \<open>Error\<close> with the fixed invalid-credential
  message when \<open>contains\<close> holds and with the fixed generic message otherwise (also
  for a thrown value that is not an \<open>Error\<close>). The embedded client re-raises what the
  remote call threw, unchanged; the \<open>catch\<close> block of the provider then shows, unless the
  error is named \<open>AbortError\<close>, the toast \<open>Gemini Error: \<close> followed by the fixed
  invalid-credential message when \<open>contains\<close> holds and by the raw message otherwise.
\<close>

theorem C8_failure_mapping:
  assumes "truthy key"
  shows "getCodeSuggestions key (Inl (JsError n m)) =
           Inl (Error (if \<exists>pre post. m = pre @ js ''API key not valid'' @ post
                       then ''Invalid API Key. Please check your configuration.''
                       else ''Failed to get suggestions from Gemini.''))
       \<and> getCodeSuggestions_2 key (Inl (JsError n m)) =
           Inl (Error (if \<exists>pre post. m = pre @ js ''API key not valid'' @ post
                       then ''Invalid API Key. Please check your configuration.''
                       else ''Failed to get suggestions from Gemini.''))
       \<and> getCodeSuggestions key (Inl NonError) =
           Inl (Error ''Failed to get suggestions from Gemini.'')
       \<and> getCodeSuggestions_2 key (Inl NonError) =
           Inl (Error ''Failed to get suggestions from Gemini.'')
       \<and> getCodeSuggestion True (Inl e) ab = Inl e
       \<and> (n \<noteq> js ''AbortError'' \<longrightarrow>
            toasts (provide_catch call (JsError n m) s) =
              toasts s @
                [js ''Gemini Error: '' @
                   (if \<exists>pre post. m = pre @ js ''API key not valid'' @ post
                    then js ''Invalid API Key. Please check your plugin settings.''
                    else m)])"
  using assms
  by (simp add: getCodeSuggestions_def getCodeSuggestions_2_def getCodeSuggestion_def
      provide_catch_def toasts_resolve toast_def str_includes_iff)

theorem C8_failure_mapping_witness:
  "truthy (Some (js ''k''))
   \<and> js ''Error'' \<noteq> js ''AbortError''
   \<and> getCodeSuggestions (Some (js ''k''))
        (Inl (JsError (js ''Error'') (js ''API key not valid. Please pass a valid API key.''))) =
      Inl (Error ''Invalid API Key. Please check your configuration.'')
   \<and> toasts (provide_catch 0
        (JsError (js ''Error'') (js ''API key not valid. Please pass a valid API key.''))
        new_plugin) =
      [js ''Gemini Error: Invalid API Key. Please check your plugin settings.'']"
proof -
  have k: "truthy (Some (js ''k''))"
    by (simp add: truthy_def js_def)
  have n: "js ''Error'' \<noteq> js ''AbortError''"
    by (simp add: js_def)
  have "js ''API key not valid. Please pass a valid API key.'' =
          [] @ js ''API key not valid'' @ js ''. Please pass a valid API key.''"
    by (simp add: js_def)
  then have c: "\<exists>pre post. js ''API key not valid. Please pass a valid API key.'' =
          pre @ js ''API key not valid'' @ post"
    by blast
  have t: "toasts new_plugin = []"
    by (simp add: new_plugin_def)
  from C8_failure_mapping [OF k, of "js ''Error''"
      "js ''API key not valid. Please pass a valid API key.''" undefined undefined 0 new_plugin]
    k n c t
  show ?thesis by (simp add: js_def)
qed

text \<open>
  The claim as written fails in the embedded variant: a failure without the marker
  substring is shown with the raw message of the provider, and the embedded client
  re-raises the raw exception.
\<close>

theorem C8_counterexample:
  "toasts (provide_catch 0 (JsError (js ''Error'') (js ''boom'')) new_plugin) =
     [js ''Gemini Error: boom'']
   \<and> getCodeSuggestion True (Inl (JsError (js ''Error'') (js ''boom''))) False =
     Inl (JsError (js ''Error'') (js ''boom''))"
  by (simp add: provide_catch_def resolve_def toast_def new_plugin_def getCodeSuggestion_def
      js_def prefix_def)

section \<open>The length guard\<close>

lemma resolved_resolve_fresh:
  "map_of (resolved s) call = None \<Longrightarrow> map_of (resolved (resolve call items s)) call = Some items"
  by (simp add: resolve_def map_add_def)

lemma resolve_keeps:
  "p_calls (resolve call items s) = p_calls s"
  "awaiting (resolve call items s) = awaiting s"
  by (simp_all add: resolve_def split: option.splits)

text \<open>
  The guard inside the two callbacks. A text whose trimmed length is below 3 makes
  \<open>fetchSuggestions\<close> (standalone) issue no remote call and clear the suggestion; a
  text before the cursor whose trimmed length is below 10 makes the timer callback of
  the provider (embedded), when it runs, issue no remote call and resolve the
  invocation's pending promise with the empty list.
\<close>

lemma length_guard_callbacks:
  "(length (trim currentCode) < 3 \<longrightarrow>
      calls (fetchSuggestions g currentCode signal s) = calls s
      \<and> pending (fetchSuggestions g currentCode signal s) = pending s
      \<and> inlineSuggestion (fetchSuggestions g currentCode signal s) = [])
   \<and> (length (trim (take pos (session p))) < 10 \<and> map_of (resolved p) call = None \<longrightarrow>
      p_calls (debounced call pos p) = p_calls p
      \<and> awaiting (debounced call pos p) = awaiting p
      \<and> map_of (resolved (debounced call pos p)) call = Some [])"
proof (intro conjI impI)
  assume "length (trim currentCode) < 3"
  then show "calls (fetchSuggestions g currentCode signal s) = calls s"
    and "pending (fetchSuggestions g currentCode signal s) = pending s"
    and "inlineSuggestion (fetchSuggestions g currentCode signal s) = []"
    by (simp_all add: fetchSuggestions_def Let_def)
next
  assume a: "length (trim (take pos (session p))) < 10 \<and> map_of (resolved p) call = None"
  define q where "q = (if p_isLoading p
                then (case abortController p of None \<Rightarrow> p | Some c \<Rightarrow> p_abort c p)
                else p)"
  have q: "session q = session p" "resolved q = resolved p" "p_calls q = p_calls p"
    "awaiting q = awaiting p"
    by (simp_all add: q_def p_abort_def split: option.splits)
  define q2 where "q2 = q\<lparr>p_isLoading := True, abortController := Some (p_nextId q),
                  fired := fired q @ [call], p_nextId := p_nextId q + 1\<rparr>"
  from a q have d: "debounced call pos p = (resolve call [] q2)\<lparr>p_isLoading := False\<rparr>"
    by (simp add: debounced_def Let_def q_def [symmetric] q2_def)
  from a q have fresh: "map_of (resolved q2) call = None"
    by (simp add: q2_def)
  show "p_calls (debounced call pos p) = p_calls p"
    using q by (simp add: d resolve_keeps q2_def)
  show "awaiting (debounced call pos p) = awaiting p"
    using q by (simp add: d resolve_keeps q2_def)
  show "map_of (resolved (debounced call pos p)) call = Some []"
    using resolved_resolve_fresh [OF fresh] by (simp add: d)
qed

section \<open>Accepting a suggestion\<close>

text \<open>
  C9. Accepting with Tab is idempotent: a second Tab on the state left by a first one
  is not handled (no \<open>preventDefault\<close>) and leaves the whole state, buffer and suggestion
  included, as the first one left it.
\<close>

theorem C9_accept_idempotent:
  "handleKeyDown t2 (js ''Tab'') (snd (handleKeyDown t1 (js ''Tab'') s)) =
     (False, snd (handleKeyDown t1 (js ''Tab'') s))"
  by (simp add: handleKeyDown_def Let_def)

section \<open>Frame and invariant lemmas of the standalone component\<close>

lemma resume_frame [simp]:
  "timers (fetchSuggestions_resume signal result s) = timers s"
  "cleanup (fetchSuggestions_resume signal result s) = cleanup s"
  "nextId (fetchSuggestions_resume signal result s) = nextId s"
  "editorRef (fetchSuggestions_resume signal result s) = editorRef s"
  "code (fetchSuggestions_resume signal result s) = code s"
  "env_API_KEY (fetchSuggestions_resume signal result s) = env_API_KEY s"
  "fetched (fetchSuggestions_resume signal result s) = fetched s"
  "calls (fetchSuggestions_resume signal result s) = calls s"
  "pending (fetchSuggestions_resume signal result s) = pending s"
  "aborted (fetchSuggestions_resume signal result s) = aborted s"
  by (simp_all add: fetchSuggestions_resume_def Let_def split: sum.splits)

lemma fetchSuggestions_frame [simp]:
  "timers (fetchSuggestions g v signal s) = timers s"
  "cleanup (fetchSuggestions g v signal s) = cleanup s"
  "nextId (fetchSuggestions g v signal s) = nextId s"
  "editorRef (fetchSuggestions g v signal s) = editorRef s"
  "code (fetchSuggestions g v signal s) = code s"
  "env_API_KEY (fetchSuggestions g v signal s) = env_API_KEY s"
  "aborted (fetchSuggestions g v signal s) = aborted s"
  "fetched (fetchSuggestions g v signal s) = fetched s @ [v]"
  by (simp_all add: fetchSuggestions_def Let_def)

lemma fetchSuggestions_calls:
  "calls (fetchSuggestions g v signal s) =
     calls s @ (if 3 \<le> length (trim v) \<and> truthy (env_API_KEY s) then [v] else [])"
  by (simp add: fetchSuggestions_def Let_def)

lemma run_task_case:
  "run_task g j s =
     (case j of FetchTask v signal \<Rightarrow> fetchSuggestions g v signal s
      | CursorTask n \<Rightarrow> (if editorRef s then s\<lparr>selection := (n, n)\<rparr> else s))"
  by (cases j) simp_all

lemma run_task_frame [simp]:
  "timers (run_task g j s) = timers s"
  "cleanup (run_task g j s) = cleanup s"
  "nextId (run_task g j s) = nextId s"
  "editorRef (run_task g j s) = editorRef s"
  "code (run_task g j s) = code s"
  "env_API_KEY (run_task g j s) = env_API_KEY s"
  "aborted (run_task g j s) = aborted s"
  by (simp_all add: run_task_case split: task.splits)

lemma fold_run_task_timers [simp]:
  "timers (fold (\<lambda>(h, d, j). run_task g j) ts s) = timers s"
  by (induction ts arbitrary: s) (simp_all add: case_prod_beta)

lemma fold_run_task_cleanup [simp]:
  "cleanup (fold (\<lambda>(h, d, j). run_task g j) ts s) = cleanup s"
  by (induction ts arbitrary: s) (simp_all add: case_prod_beta)

lemma fold_run_task_nextId [simp]:
  "nextId (fold (\<lambda>(h, d, j). run_task g j) ts s) = nextId s"
  by (induction ts arbitrary: s) (simp_all add: case_prod_beta)

lemma fold_run_task_editorRef [simp]:
  "editorRef (fold (\<lambda>(h, d, j). run_task g j) ts s) = editorRef s"
  by (induction ts arbitrary: s) (simp_all add: case_prod_beta)

lemma fold_run_task_code [simp]:
  "code (fold (\<lambda>(h, d, j). run_task g j) ts s) = code s"
  by (induction ts arbitrary: s) (simp_all add: case_prod_beta)

lemma fold_run_task_env [simp]:
  "env_API_KEY (fold (\<lambda>(h, d, j). run_task g j) ts s) = env_API_KEY s"
  by (induction ts arbitrary: s) (simp_all add: case_prod_beta)

lemma fold_run_task_aborted [simp]:
  "aborted (fold (\<lambda>(h, d, j). run_task g j) ts s) = aborted s"
  by (induction ts arbitrary: s) (simp_all add: case_prod_beta)

lemma advance_frame [simp]:
  "timers (advance g now s) = filter (\<lambda>(h, d, j). \<not> d \<le> now) (timers s)"
  "cleanup (advance g now s) = cleanup s"
  "nextId (advance g now s) = nextId s"
  "editorRef (advance g now s) = editorRef s"
  "code (advance g now s) = code s"
  "env_API_KEY (advance g now s) = env_API_KEY s"
  "aborted (advance g now s) = aborted s"
  by (simp_all add: advance_def Let_def)

lemma app_inv_advance: "app_inv s \<Longrightarrow> app_inv (advance g now s)"
  by (auto simp: app_inv_def)

lemma app_inv_respond: "app_inv s \<Longrightarrow> app_inv (respond g signal out s)"
  by (auto simp: app_inv_def respond_def split: option.splits)

lemma useEffect_cleanup_frame [simp]:
  "cleanup (useEffect_cleanup s) = cleanup s"
  "nextId (useEffect_cleanup s) = nextId s"
  "editorRef (useEffect_cleanup s) = editorRef s"
  "code (useEffect_cleanup s) = code s"
  "env_API_KEY (useEffect_cleanup s) = env_API_KEY s"
  "fetched (useEffect_cleanup s) = fetched s"
  "calls (useEffect_cleanup s) = calls s"
  "pending (useEffect_cleanup s) = pending s"
  "inlineSuggestion (useEffect_cleanup s) = inlineSuggestion s"
  by (simp_all add: useEffect_cleanup_def abort_def clearTimeout_def split: option.splits)

lemma useEffect_cleanup_timers:
  "timers (useEffect_cleanup s) =
     (case cleanup s of None \<Rightarrow> timers s
      | Some (handler, c) \<Rightarrow> filter (\<lambda>(h, d, j). h \<noteq> handler) (timers s))"
  by (simp add: useEffect_cleanup_def abort_def clearTimeout_def split: option.splits)

lemma useEffect_run_frame [simp]:
  "timers (useEffect_run now s) = timers s @ [(nextId s + 1, now + 500, FetchTask (code s) (nextId s))]"
  "cleanup (useEffect_run now s) = Some (nextId s + 1, nextId s)"
  "nextId (useEffect_run now s) = nextId s + 2"
  "editorRef (useEffect_run now s) = editorRef s"
  "code (useEffect_run now s) = code s"
  "env_API_KEY (useEffect_run now s) = env_API_KEY s"
  "fetched (useEffect_run now s) = fetched s"
  "calls (useEffect_run now s) = calls s"
  "pending (useEffect_run now s) = pending s"
  "inlineSuggestion (useEffect_run now s) = inlineSuggestion s"
  by (simp_all add: useEffect_run_def setTimeout_def abort_def Let_def split: option.splits)

lemma fetch_timers_cleanup:
  assumes "\<forall>(h, d, j) \<in> set (timers s). is_fetch j \<longrightarrow> (\<exists>c. cleanup s = Some (h, c))"
  shows "fetch_timers (useEffect_cleanup s) = []"
proof (cases "cleanup s")
  case None
  with assms show ?thesis
    by (auto simp: fetch_timers_def useEffect_cleanup_timers filter_empty_conv)
next
  case (Some hc)
  with assms show ?thesis
    by (cases hc) (auto simp: fetch_timers_def useEffect_cleanup_timers filter_empty_conv)
qed

lemma fetch_timers_changed:
  assumes "\<forall>(h, d, j) \<in> set (timers s). is_fetch j \<longrightarrow> (\<exists>c. cleanup s = Some (h, c))"
    and "v \<noteq> code s"
  shows "fetch_timers (setCode now v s) = [(nextId s + 1, now + 500, FetchTask v (nextId s))]"
    and "cleanup (setCode now v s) = Some (nextId s + 1, nextId s)"
    and "code (setCode now v s) = v"
proof -
  let ?s = "s\<lparr>code := v\<rparr>"
  from assms(1) have "\<forall>(h, d, j) \<in> set (timers ?s). is_fetch j \<longrightarrow> (\<exists>c. cleanup ?s = Some (h, c))"
    by simp
  from fetch_timers_cleanup [OF this]
  have "filter (\<lambda>(h, d, j). is_fetch j) (timers (useEffect_cleanup ?s)) = []"
    by (simp add: fetch_timers_def)
  with assms(2) show "fetch_timers (setCode now v s) = [(nextId s + 1, now + 500, FetchTask v (nextId s))]"
    by (simp add: setCode_def fetch_timers_def)
  from assms(2) show "cleanup (setCode now v s) = Some (nextId s + 1, nextId s)"
    and "code (setCode now v s) = v"
    by (simp_all add: setCode_def)
qed

lemma app_inv_fetch_timers:
  "app_inv s \<longleftrightarrow>
     (\<forall>(h, d, j) \<in> set (fetch_timers s). \<exists>c. cleanup s = Some (h, c))
     \<and> (\<forall>h c. cleanup s = Some (h, c) \<longrightarrow> h < nextId s)
     \<and> editorRef s"
  by (auto simp: app_inv_def fetch_timers_def)

lemma app_inv_setCode: "app_inv s \<Longrightarrow> app_inv (setCode now v s)"
proof (cases "v = code s")
  case True
  assume "app_inv s"
  with True show ?thesis by (simp add: setCode_def)
next
  case False
  assume a: "app_inv s"
  then have t: "\<forall>(h, d, j) \<in> set (timers s). is_fetch j \<longrightarrow> (\<exists>c. cleanup s = Some (h, c))"
    by (simp add: app_inv_def)
  from a False show ?thesis
    unfolding app_inv_fetch_timers
    by (simp add: fetch_timers_changed [OF t False]) (simp add: setCode_def app_inv_def)
qed

lemma setTimeout_frame [simp]:
  "timers (setTimeout now delay job s) = timers s @ [(nextId s, now + delay, job)]"
  "cleanup (setTimeout now delay job s) = cleanup s"
  "nextId (setTimeout now delay job s) = nextId s + 1"
  "editorRef (setTimeout now delay job s) = editorRef s"
  "code (setTimeout now delay job s) = code s"
  "env_API_KEY (setTimeout now delay job s) = env_API_KEY s"
  "fetched (setTimeout now delay job s) = fetched s"
  "calls (setTimeout now delay job s) = calls s"
  "inlineSuggestion (setTimeout now delay job s) = inlineSuggestion s"
  by (simp_all add: setTimeout_def)

lemma app_inv_cursor: "app_inv s \<Longrightarrow> app_inv (setTimeout now delay (CursorTask n) s)"
  by (auto simp: app_inv_def)

lemma app_inv_suggestion: "app_inv s \<Longrightarrow> app_inv (s\<lparr>inlineSuggestion := v\<rparr>)"
  by (simp add: app_inv_def)

lemma app_inv_handleCodeChange: "app_inv s \<Longrightarrow> app_inv (handleCodeChange now v s)"
  by (simp add: handleCodeChange_def app_inv_suggestion app_inv_setCode)

lemma app_inv_handleKeyDown: "app_inv s \<Longrightarrow> app_inv (snd (handleKeyDown now key s))"
  by (simp add: handleKeyDown_def Let_def app_inv_suggestion app_inv_setCode app_inv_cursor)

lemma app_inv_step: "app_inv s \<Longrightarrow> app_inv (app_step g ev s)"
  by (cases ev)
    (simp_all add: app_inv_advance app_inv_respond app_inv_handleCodeChange
      app_inv_handleKeyDown)

lemma app_inv_run: "app_inv s \<Longrightarrow> app_inv (run_app g evs s)"
  unfolding run_app_def by (induction evs arbitrary: s) (simp_all add: app_inv_step)

lemma app_inv_mount: "app_inv (App_mount key)"
  by (simp add: App_mount_def app_inv_def)

lemma advance_not_due:
  "\<forall>(h, d, j) \<in> set (timers (advance g now s)). now < d"
  by auto

lemma tab_accept_timers:
  assumes inv: "app_inv s"
    and late: "\<forall>(h, d, j) \<in> set (timers s). now < d"
    and sugg: "inlineSuggestion s \<noteq> []"
  shows "filter (\<lambda>(h, d, j). d \<le> now) (timers (snd (handleKeyDown now (js ''Tab'') s))) =
           [(nextId s, now, CursorTask (length (code s @ inlineSuggestion s)))]"
proof -
  let ?n = "length (code s @ inlineSuggestion s)"
  let ?new = "code s @ inlineSuggestion s"
  let ?s1 = "setTimeout now 0 (CursorTask ?n) s"
  from late have none: "filter (\<lambda>(h, d, j). d \<le> now) (timers s) = []"
    by (auto simp: filter_empty_conv)
  have t1: "filter (\<lambda>(h, d, j). d \<le> now) (timers ?s1) = [(nextId s, now, CursorTask ?n)]"
    using none by simp
  have keep: "filter (\<lambda>(h, d, j). d \<le> now) (timers (useEffect_cleanup (?s1\<lparr>code := ?new\<rparr>))) =
        [(nextId s, now, CursorTask ?n)]"
  proof (cases "cleanup s")
    case None
    then show ?thesis using none by (simp add: useEffect_cleanup_timers)
  next
    case (Some hc)
    obtain handler c where hc: "hc = (handler, c)" by (cases hc)
    with Some inv have "handler < nextId s" by (simp add: app_inv_def)
    then have "handler \<noteq> nextId s" by simp
    with Some hc none show ?thesis
      by (simp add: useEffect_cleanup_timers filter_empty_conv)
  qed
  from sugg have "?new \<noteq> code ?s1" by simp
  then have "snd (handleKeyDown now (js ''Tab'') s) =
      (useEffect_run now (useEffect_cleanup (?s1\<lparr>code := ?new\<rparr>)))\<lparr>inlineSuggestion := []\<rparr>"
    using sugg by (simp add: handleKeyDown_def Let_def setCode_def)
  with keep show ?thesis by simp
qed

lemma tab_accept_state:
  assumes "inlineSuggestion s \<noteq> []"
  shows "fst (handleKeyDown now (js ''Tab'') s)"
    and "code (snd (handleKeyDown now (js ''Tab'') s)) = code s @ inlineSuggestion s"
    and "inlineSuggestion (snd (handleKeyDown now (js ''Tab'') s)) = []"
    and "editorRef (snd (handleKeyDown now (js ''Tab'') s)) = editorRef s"
  using assms by (simp_all add: handleKeyDown_def Let_def setCode_def)

lemma advance_single_cursor:
  assumes "filter (\<lambda>(h, d, j). d \<le> now) (timers s) = [(h, d, CursorTask n)]" and "editorRef s"
  shows "selection (advance g now s) = (n, n)"
    and "code (advance g now s) = code s"
    and "inlineSuggestion (advance g now s) = inlineSuggestion s"
  using assms by (simp_all add: advance_def Let_def)

lemma fold_run_task_fetched:
  "fetched (fold (\<lambda>(h, d, j). run_task g j) ts s) =
     fetched s @ map (\<lambda>(h, d, j). fetch_code j) (filter (\<lambda>(h, d, j). is_fetch j) ts)"
proof (induction ts arbitrary: s)
  case Nil
  show ?case by simp
next
  case (Cons x xs)
  obtain h d j where x: "x = (h, d, j)" by (cases x)
  show ?case by (cases j) (simp_all add: x Cons.IH)
qed

lemma fold_run_task_calls:
  "calls (fold (\<lambda>(h, d, j). run_task g j) ts s) =
     calls s @ filter (\<lambda>v. 3 \<le> length (trim v) \<and> truthy (env_API_KEY s))
                (map (\<lambda>(h, d, j). fetch_code j) (filter (\<lambda>(h, d, j). is_fetch j) ts))"
proof (induction ts arbitrary: s)
  case Nil
  show ?case by simp
next
  case (Cons x xs)
  obtain h d j where x: "x = (h, d, j)" by (cases x)
  show ?case by (cases j) (simp_all add: x Cons.IH fetchSuggestions_calls)
qed

lemma fetch_of_due:
  "filter (\<lambda>(h, d, j). is_fetch j)
     (sort_key (\<lambda>(h, d, j). d) (filter (\<lambda>(h, d, j). d \<le> now) (timers s))) =
   sort_key (\<lambda>(h, d, j). d) (filter (\<lambda>(h, d, j). d \<le> now) (fetch_timers s))"
proof -
  have "filter (\<lambda>(h, d, j). is_fetch j) (filter (\<lambda>(h, d, j). d \<le> now) (timers s)) =
        filter (\<lambda>(h, d, j). d \<le> now) (fetch_timers s)"
    unfolding fetch_timers_def filter_filter by (rule filter_cong) auto
  then show ?thesis by (simp add: filter_sort)
qed

lemma advance_fetched: "fetched (advance g now s) = fetched s @ due_fetches now s"
  by (simp add: advance_def Let_def fold_run_task_fetched fetch_of_due due_fetches_def)

lemma advance_calls:
  "calls (advance g now s) =
     calls s @ filter (\<lambda>v. 3 \<le> length (trim v) \<and> truthy (env_API_KEY s)) (due_fetches now s)"
  by (simp add: advance_def Let_def fold_run_task_calls fetch_of_due due_fetches_def)

lemma advance_fetch_timers:
  "fetch_timers (advance g now s) = filter (\<lambda>(h, d, j). \<not> d \<le> now) (fetch_timers s)"
  unfolding fetch_timers_def advance_frame filter_filter by (rule filter_cong) auto

lemma setCode_logs [simp]:
  "fetched (setCode now v s) = fetched s"
  "calls (setCode now v s) = calls s"
  "env_API_KEY (setCode now v s) = env_API_KEY s"
  by (simp_all add: setCode_def)

lemma change_starts_debounce:
  assumes "\<forall>(h, d, j) \<in> set (fetch_timers s). \<exists>c. cleanup s = Some (h, c)"
    and "v \<noteq> code s"
  shows "debouncing (handleCodeChange now v s) now v"
    and "fetched (handleCodeChange now v s) = fetched s"
    and "calls (handleCodeChange now v s) = calls s"
    and "env_API_KEY (handleCodeChange now v s) = env_API_KEY s"
proof -
  from assms(1)
  have t: "\<forall>(h, d, j) \<in> set (timers s). is_fetch j \<longrightarrow> (\<exists>c. cleanup s = Some (h, c))"
    by (auto simp: fetch_timers_def)
  note ch = fetch_timers_changed [OF t assms(2), of now]
  have "fetch_timers (handleCodeChange now v s) = fetch_timers (setCode now v s)"
    by (simp add: handleCodeChange_def fetch_timers_def)
  with ch show "debouncing (handleCodeChange now v s) now v"
    by (simp add: debouncing_def handleCodeChange_def)
  show "fetched (handleCodeChange now v s) = fetched s"
    and "calls (handleCodeChange now v s) = calls s"
    and "env_API_KEY (handleCodeChange now v s) = env_API_KEY s"
    by (simp_all add: handleCodeChange_def)
qed

lemma debouncing_wait:
  assumes "debouncing s t v" and "now < t + 500"
  shows "debouncing (advance g now s) t v"
    and "fetched (advance g now s) = fetched s"
    and "calls (advance g now s) = calls s"
proof -
  from assms obtain h c where
    ft: "fetch_timers s = [(h, t + 500, FetchTask v c)]" and cl: "cleanup s = Some (h, c)"
    and co: "code s = v"
    by (auto simp: debouncing_def)
  from ft assms(2) have nd: "due_fetches now s = []"
    by (simp add: due_fetches_def)
  from ft assms(2) cl co show "debouncing (advance g now s) t v"
    by (simp add: debouncing_def advance_fetch_timers)
  from nd show "fetched (advance g now s) = fetched s" by (simp add: advance_fetched)
  from nd show "calls (advance g now s) = calls s" by (simp add: advance_calls)
qed

lemma debouncing_fire:
  assumes "debouncing s t v" and "t + 500 \<le> now"
  shows "fetched (advance g now s) = fetched s @ [v]"
    and "calls (advance g now s) =
           calls s @ (if 3 \<le> length (trim v) \<and> truthy (env_API_KEY s) then [v] else [])"
proof -
  from assms obtain h c where
    ft: "fetch_timers s = [(h, t + 500, FetchTask v c)]"
    by (auto simp: debouncing_def)
  from ft assms(2) have nd: "due_fetches now s = [v]"
    by (simp add: due_fetches_def)
  from nd show "fetched (advance g now s) = fetched s @ [v]" by (simp add: advance_fetched)
  from nd show "calls (advance g now s) =
           calls s @ (if 3 \<le> length (trim v) \<and> truthy (env_API_KEY s) then [v] else [])"
    by (simp add: advance_calls)
qed

lemma burst_coalesces:
  assumes "debouncing s t v"
    and "within_window 500 (t # map fst rest)"
    and "changes v (map snd rest)"
    and "last (t # map fst rest) + 500 \<le> T"
  shows "fetched (advance g T (run_app g (map (\<lambda>(t, v). Change t v) rest) s)) =
           fetched s @ [last (v # map snd rest)]
       \<and> calls (advance g T (run_app g (map (\<lambda>(t, v). Change t v) rest) s)) =
           calls s @ (if 3 \<le> length (trim (last (v # map snd rest))) \<and> truthy (env_API_KEY s)
                      then [last (v # map snd rest)] else [])"
  using assms
proof (induction rest arbitrary: s t v)
  case Nil
  then show ?case by (simp add: run_app_def debouncing_fire)
next
  case (Cons e rest)
  obtain t' v' where e: "e = (t', v')" by (cases e)
  from Cons.prems(2) e have w: "t \<le> t'" "t' < t + 500" "within_window 500 (t' # map fst rest)"
    by simp_all
  from Cons.prems(3) e have c: "v' \<noteq> v" "changes v' (map snd rest)" by simp_all
  from Cons.prems(4) e have l: "last (t' # map fst rest) + 500 \<le> T" by simp
  let ?a = "advance g t' s"
  let ?s' = "handleCodeChange t' v' ?a"
  note wait = debouncing_wait [OF Cons.prems(1) w(2), of g]
  from wait(1) have ft: "\<forall>(h, d, j) \<in> set (fetch_timers ?a). \<exists>c. cleanup ?a = Some (h, c)"
    and co: "code ?a = v"
    by (auto simp: debouncing_def)
  from c(1) co have ne: "v' \<noteq> code ?a" by simp
  note ch = change_starts_debounce [OF ft ne, of t']
  from Cons.IH [OF ch(1) w(3) c(2) l] ch(2,3,4) wait(2,3)
  show ?case by (simp add: e run_app_def)
qed

section \<open>Frame and invariant lemmas of the plugin\<close>

lemma resolve_frame [simp]:
  "ai (resolve call items s) = ai s"
  "registered (resolve call items s) = registered s"
  "p_timers (resolve call items s) = p_timers s"
  "debounceTimeout (resolve call items s) = debounceTimeout s"
  "awaiting (resolve call items s) = awaiting s"
  "session (resolve call items s) = session s"
  "p_calls (resolve call items s) = p_calls s"
  "fired (resolve call items s) = fired s"
  "abortController (resolve call items s) = abortController s"
  "p_aborted (resolve call items s) = p_aborted s"
  by (simp_all add: resolve_def split: option.splits)

lemma toast_frame [simp]:
  "ai (toast msg s) = ai s"
  "registered (toast msg s) = registered s"
  "p_timers (toast msg s) = p_timers s"
  "debounceTimeout (toast msg s) = debounceTimeout s"
  "awaiting (toast msg s) = awaiting s"
  "session (toast msg s) = session s"
  "p_calls (toast msg s) = p_calls s"
  "fired (toast msg s) = fired s"
  "abortController (toast msg s) = abortController s"
  "p_aborted (toast msg s) = p_aborted s"
  by (simp_all add: toast_def)

lemma p_abort_frame [simp]:
  "ai (p_abort c s) = ai s"
  "registered (p_abort c s) = registered s"
  "p_timers (p_abort c s) = p_timers s"
  "debounceTimeout (p_abort c s) = debounceTimeout s"
  "awaiting (p_abort c s) = awaiting s"
  "session (p_abort c s) = session s"
  "p_calls (p_abort c s) = p_calls s"
  "fired (p_abort c s) = fired s"
  by (simp_all add: p_abort_def)

lemma provide_catch_frame [simp]:
  "ai (provide_catch call err s) = ai s"
  "registered (provide_catch call err s) = registered s"
  "p_timers (provide_catch call err s) = p_timers s"
  "debounceTimeout (provide_catch call err s) = debounceTimeout s"
  "awaiting (provide_catch call err s) = awaiting s"
  "session (provide_catch call err s) = session s"
  "p_calls (provide_catch call err s) = p_calls s"
  "fired (provide_catch call err s) = fired s"
  by (simp_all add: provide_catch_def Let_def split: thrown.splits)

lemma provide_resume_frame [simp]:
  "ai (provide_resume call result s) = ai s"
  "registered (provide_resume call result s) = registered s"
  "p_timers (provide_resume call result s) = p_timers s"
  "debounceTimeout (provide_resume call result s) = debounceTimeout s"
  "awaiting (provide_resume call result s) = awaiting s"
  "session (provide_resume call result s) = session s"
  "p_calls (provide_resume call result s) = p_calls s"
  "fired (provide_resume call result s) = fired s"
  by (simp_all add: provide_resume_def Let_def split: sum.splits option.splits)

lemma debounced_frame [simp]:
  "ai (debounced call pos s) = ai s"
  "registered (debounced call pos s) = registered s"
  "p_timers (debounced call pos s) = p_timers s"
  "debounceTimeout (debounced call pos s) = debounceTimeout s"
  "session (debounced call pos s) = session s"
  "fired (debounced call pos s) = fired s @ [call]"
  by (simp_all add: debounced_def Let_def split: option.splits)

lemma debounced_awaiting:
  "awaiting (debounced call pos s) \<noteq> [] \<Longrightarrow> awaiting s \<noteq> [] \<or> ai s"
  by (auto simp: debounced_def Let_def split: option.splits if_splits)

lemma plugin_inv_debounced: "plugin_inv s \<Longrightarrow> plugin_inv (debounced call pos s)"
  unfolding plugin_inv_def using debounced_awaiting [of call pos s] by auto

lemma fold_debounced_inv:
  "plugin_inv s \<Longrightarrow> plugin_inv (fold (\<lambda>(h, d, i, pos). debounced i pos) ts s)"
  by (induction ts arbitrary: s) (auto simp: plugin_inv_debounced)

lemma plugin_inv_drop_timers:
  assumes "plugin_inv s"
  shows "plugin_inv (s\<lparr>p_timers := filter P (p_timers s)\<rparr>)"
proof -
  have "filter P (p_timers s) \<noteq> [] \<Longrightarrow> p_timers s \<noteq> []" by auto
  with assms show ?thesis unfolding plugin_inv_def by auto
qed

lemma plugin_inv_p_advance: "plugin_inv s \<Longrightarrow> plugin_inv (p_advance now s)"
  unfolding p_advance_def Let_def
  by (intro fold_debounced_inv plugin_inv_drop_timers)

lemma plugin_inv_init: "plugin_inv s \<Longrightarrow> plugin_inv (init key throws s)"
  by (auto simp: plugin_inv_def init_def init_failed_def alert_def Let_def)

lemma plugin_inv_destroy: "plugin_inv s \<Longrightarrow> plugin_inv (destroy s)"
proof -
  assume a: "plugin_inv s"
  define q where "q = (case abortController s of None \<Rightarrow> s | Some c \<Rightarrow> p_abort c s)"
  have q: "ai q = ai s" "registered q = registered s" "p_timers q = p_timers s"
    "debounceTimeout q = debounceTimeout s" "awaiting q = awaiting s"
    by (simp_all add: q_def split: option.splits)
  with a have "plugin_inv q" by (simp add: plugin_inv_def)
  then have "plugin_inv (p_clearTimeout (debounceTimeout q) q)"
    by (cases "debounceTimeout q") (simp_all add: p_clearTimeout_def plugin_inv_drop_timers)
  with q show ?thesis by (simp add: destroy_def q_def)
qed

lemma p_clearTimeout_current:
  assumes "\<forall>(h, d, c, pos) \<in> set (p_timers s). debounceTimeout s = Some h"
  shows "p_timers (p_clearTimeout (debounceTimeout s) s) = []"
proof (cases "debounceTimeout s")
  case None
  with assms have "p_timers s = []" by (cases "p_timers s") auto
  with None show ?thesis by (simp add: p_clearTimeout_def)
next
  case (Some h)
  with assms have "filter (\<lambda>(h', d, i, pos). h' \<noteq> h) (p_timers s) = []"
    by (auto simp: filter_empty_conv)
  with Some show ?thesis by (simp add: p_clearTimeout_def)
qed

lemma p_clearTimeout_frame [simp]:
  "ai (p_clearTimeout h s) = ai s"
  "registered (p_clearTimeout h s) = registered s"
  "debounceTimeout (p_clearTimeout h s) = debounceTimeout s"
  "awaiting (p_clearTimeout h s) = awaiting s"
  "session (p_clearTimeout h s) = session s"
  "p_calls (p_clearTimeout h s) = p_calls s"
  "fired (p_clearTimeout h s) = fired s"
  "p_nextId (p_clearTimeout h s) = p_nextId s"
  by (simp_all add: p_clearTimeout_def split: option.splits)

lemma provideCompletions_timers:
  assumes "\<forall>(h, d, c, pos) \<in> set (p_timers s). debounceTimeout s = Some h"
  shows "p_timers (provideCompletions now pos s) = [(p_nextId s + 1, now + 700, p_nextId s, pos)]"
    and "debounceTimeout (provideCompletions now pos s) = Some (p_nextId s + 1)"
  using p_clearTimeout_current [OF assms]
  by (simp_all add: provideCompletions_def Let_def)

lemma provideCompletions_frame [simp]:
  "ai (provideCompletions now pos s) = ai s"
  "registered (provideCompletions now pos s) = registered s"
  "awaiting (provideCompletions now pos s) = awaiting s"
  "session (provideCompletions now pos s) = session s"
  "p_calls (provideCompletions now pos s) = p_calls s"
  "fired (provideCompletions now pos s) = fired s"
  by (simp_all add: provideCompletions_def Let_def)

lemma plugin_inv_provide:
  assumes "plugin_inv s" "registered s"
  shows "plugin_inv (provideCompletions now pos s)"
proof -
  from assms(1) have t: "\<forall>(h, d, c, pos) \<in> set (p_timers s). debounceTimeout s = Some h"
    by (simp add: plugin_inv_def)
  from assms show ?thesis
    by (simp add: plugin_inv_def provideCompletions_timers [OF t])
qed

lemma plugin_inv_session: "plugin_inv s \<Longrightarrow> plugin_inv (s\<lparr>session := doc\<rparr>)"
  by (simp add: plugin_inv_def)

lemma plugin_inv_p_respond: "plugin_inv s \<Longrightarrow> plugin_inv (p_respond call out s)"
proof (cases "map_of (awaiting s) call")
  case None
  assume "plugin_inv s"
  with None show ?thesis by (simp add: p_respond_def)
next
  case (Some signal)
  assume a: "plugin_inv s"
  from Some have "awaiting s \<noteq> []" by auto
  with a have "ai s" by (simp add: plugin_inv_def)
  with a Some show ?thesis by (simp add: p_respond_def plugin_inv_def)
qed

lemma plugin_inv_step: "plugin_inv s \<Longrightarrow> plugin_inv (plugin_step ev s)"
  by (cases ev)
    (simp_all add: Let_def plugin_inv_p_advance plugin_inv_init plugin_inv_destroy
      plugin_inv_provide plugin_inv_session plugin_inv_p_respond)

lemma plugin_inv_new: "plugin_inv new_plugin"
  by (simp add: plugin_inv_def new_plugin_def)

lemma plugin_inv_run: "plugin_inv s \<Longrightarrow> plugin_inv (run_plugin evs s)"
  unfolding run_plugin_def by (induction evs arbitrary: s) (simp_all add: plugin_inv_step)

lemma fold_debounced_registered [simp]:
  "registered (fold (\<lambda>(h, d, i, pos). debounced i pos) ts s) = registered s"
  by (induction ts arbitrary: s) (simp_all add: case_prod_beta)

lemma fold_debounced_timers [simp]:
  "p_timers (fold (\<lambda>(h, d, i, pos). debounced i pos) ts s) = p_timers s"
  by (induction ts arbitrary: s) (simp_all add: case_prod_beta)

lemma p_advance_frame [simp]:
  "registered (p_advance now s) = registered s"
  "p_timers (p_advance now s) = filter (\<lambda>(h, d, i, pos). \<not> d \<le> now) (p_timers s)"
  by (simp_all add: p_advance_def Let_def)

lemma p_respond_registered [simp]: "registered (p_respond call out s) = registered s"
  by (simp add: p_respond_def split: option.splits)

lemma registered_init:
  "registered (init key throws s) \<Longrightarrow>
     registered s \<or> truthy key \<and> (throws = NoThrow \<or> throws = ThrowsAtToast)"
  by (cases throws)
    (auto simp: init_def init_failed_def alert_def Let_def split: if_splits)

lemma registered_step:
  "registered (plugin_step ev s) \<Longrightarrow>
     registered s
     \<or> (\<exists>t key throws. ev = HostInit t key throws \<and> truthy key
            \<and> (throws = NoThrow \<or> throws = ThrowsAtToast))"
proof (cases ev)
  case (HostInit t key throws)
  assume "registered (plugin_step ev s)"
  with HostInit registered_init [of key throws "p_advance t s"] show ?thesis by auto
qed (auto simp: destroy_def Let_def split: if_splits option.splits)

lemma registered_run:
  "registered (run_plugin evs s) \<Longrightarrow>
     registered s
     \<or> (\<exists>t key throws. HostInit t key throws \<in> set evs \<and> truthy key
            \<and> (throws = NoThrow \<or> throws = ThrowsAtToast))"
proof (induction evs arbitrary: s)
  case Nil
  then show ?case by (simp add: run_plugin_def)
next
  case (Cons ev evs)
  from Cons.prems have "registered (run_plugin evs (plugin_step ev s))"
    by (simp add: run_plugin_def)
  from Cons.IH [OF this] registered_step [of ev s] show ?case by auto
qed

section \<open>Bursts of invocations and of edits\<close>

lemma p_advance_idle:
  assumes "\<forall>(h, d, c, pos) \<in> set (p_timers s). now < d"
  shows "p_advance now s = s"
proof -
  from assms have a: "filter (\<lambda>(h, d, i, pos). d \<le> now) (p_timers s) = []"
    by (auto simp: filter_empty_conv)
  from assms have b: "filter (\<lambda>(h, d, i, pos). \<not> d \<le> now) (p_timers s) = p_timers s"
    by (auto simp: filter_id_conv)
  show ?thesis by (simp add: p_advance_def Let_def a b)
qed

lemma p_advance_fire:
  assumes "p_timers s = [(h, d, c, pos)]" and "d \<le> now"
  shows "p_advance now s = debounced c pos (s\<lparr>p_timers := []\<rparr>)"
  using assms by (simp add: p_advance_def Let_def)

lemma debounced_calls:
  "p_calls (debounced c pos s) =
     p_calls s @ (if 10 \<le> length (trim (take pos (session s))) \<and> ai s
                  then [take pos (session s)] else [])"
  by (simp add: debounced_def Let_def split: option.splits)

lemma p_debouncing_fire:
  assumes "p_debouncing s t pos" and "t + 700 \<le> now"
  shows "p_calls (p_advance now s) =
           p_calls s @ (if 10 \<le> length (trim (take pos (session s)))
                        then [take pos (session s)] else [])"
    and "\<exists>call. fired (p_advance now s) = fired s @ [call]"
proof -
  from assms(1) obtain h call where
    t: "p_timers s = [(h, t + 700, call, pos)]" and a: "ai s"
    by (auto simp: p_debouncing_def)
  note f = p_advance_fire [OF t assms(2)]
  from a show "p_calls (p_advance now s) =
           p_calls s @ (if 10 \<le> length (trim (take pos (session s)))
                        then [take pos (session s)] else [])"
    by (simp add: f debounced_calls)
  show "\<exists>call. fired (p_advance now s) = fired s @ [call]"
    by (simp add: f)
qed

lemma provide_starts_debounce:
  assumes "\<forall>(h, d, c, pos) \<in> set (p_timers s). debounceTimeout s = Some h"
    and "\<forall>(h, d, c, pos) \<in> set (p_timers s). now < d"
    and "registered s" and "ai s"
  shows "p_debouncing (plugin_step (Provide now doc pos) s) now pos"
    and "session (plugin_step (Provide now doc pos) s) = doc"
    and "p_calls (plugin_step (Provide now doc pos) s) = p_calls s"
    and "fired (plugin_step (Provide now doc pos) s) = fired s"
proof -
  let ?s1 = "s\<lparr>session := doc\<rparr>"
  from assms(1)
  have t: "\<forall>(h, d, c, pos) \<in> set (p_timers ?s1). debounceTimeout ?s1 = Some h"
    by simp
  from assms(3) have step: "plugin_step (Provide now doc pos) s = provideCompletions now pos ?s1"
    by (simp add: p_advance_idle [OF assms(2)])
  from assms(3,4) show "p_debouncing (plugin_step (Provide now doc pos) s) now pos"
    unfolding step by (simp add: p_debouncing_def provideCompletions_timers [OF t])
  show "session (plugin_step (Provide now doc pos) s) = doc"
    and "p_calls (plugin_step (Provide now doc pos) s) = p_calls s"
    and "fired (plugin_step (Provide now doc pos) s) = fired s"
    unfolding step by simp_all
qed

lemma p_burst_coalesces:
  assumes "p_debouncing s t pos"
    and "within_window 700 (t # map fst rest)"
    and "last (t # map fst rest) + 700 \<le> T"
  shows "p_calls (p_advance T (run_plugin (map (\<lambda>(t, doc, pos). Provide t doc pos) rest) s)) =
           p_calls s @
             (case last ((session s, pos) # map snd rest) of
                (doc, pos) \<Rightarrow> if 10 \<le> length (trim (take pos doc)) then [take pos doc] else [])
       \<and> (\<exists>call. fired (p_advance T (run_plugin (map (\<lambda>(t, doc, pos). Provide t doc pos) rest) s)) =
             fired s @ [call])"
  using assms
proof (induction rest arbitrary: s t pos)
  case Nil
  from p_debouncing_fire [of s t pos T] Nil show ?case by (simp add: run_plugin_def)
next
  case (Cons e rest)
  obtain t' doc' pos' where e: "e = (t', doc', pos')" by (cases e)
  from Cons.prems(2) e have w: "t \<le> t'" "t' < t + 700" "within_window 700 (t' # map fst rest)"
    by simp_all
  from Cons.prems(3) e have l: "last (t' # map fst rest) + 700 \<le> T" by simp
  from Cons.prems(1) obtain h call where
    t: "p_timers s = [(h, t + 700, call, pos)]" and dt: "debounceTimeout s = Some h"
    and r: "registered s" and a: "ai s"
    by (auto simp: p_debouncing_def)
  from t dt have c1: "\<forall>(h, d, c, pos) \<in> set (p_timers s). debounceTimeout s = Some h" by simp
  from t w(2) have c2: "\<forall>(h, d, c, pos) \<in> set (p_timers s). t' < d" by simp
  note st = provide_starts_debounce [OF c1 c2 r a, of doc' pos']
  from Cons.IH [OF st(1) w(3) l] st(2,3,4)
  show ?case by (simp add: e run_plugin_def)
qed

lemma app_burst_from_reachable:
  assumes "s0 = advance g t (run_app g evs (App_mount key))"
    and "within_window 500 (t # map fst rest)"
    and "changes (code s0) (v # map snd rest)"
    and "last (t # map fst rest) + 500 \<le> T"
  shows "fetched (advance g T (run_app g (map (\<lambda>(t, v). Change t v) ((t, v) # rest)) s0)) =
           fetched s0 @ [last (v # map snd rest)]
       \<and> calls (advance g T (run_app g (map (\<lambda>(t, v). Change t v) ((t, v) # rest)) s0)) =
           calls s0 @ (if 3 \<le> length (trim (last (v # map snd rest))) \<and> truthy (env_API_KEY s0)
                       then [last (v # map snd rest)] else [])"
proof -
  have inv: "app_inv s0"
    unfolding assms(1) by (intro app_inv_advance app_inv_run app_inv_mount)
  have late: "\<forall>(h, d, j) \<in> set (timers s0). t < d"
    unfolding assms(1) by (rule advance_not_due)
  then have "filter (\<lambda>(h, d, j). d \<le> t) (fetch_timers s0) = []"
    by (auto simp: fetch_timers_def filter_empty_conv)
  then have nd: "due_fetches t s0 = []"
    by (simp add: due_fetches_def)
  let ?a = "advance g t s0"
  have lg: "fetched ?a = fetched s0" "calls ?a = calls s0"
    using nd by (simp_all add: advance_fetched advance_calls)
  from inv have "app_inv ?a" by (rule app_inv_advance)
  then have ft: "\<forall>(h, d, j) \<in> set (fetch_timers ?a). \<exists>c. cleanup ?a = Some (h, c)"
    by (simp add: app_inv_fetch_timers)
  from assms(3) have ne: "v \<noteq> code ?a" and ch: "changes v (map snd rest)" by simp_all
  note st = change_starts_debounce [OF ft ne, of t]
  from burst_coalesces [OF st(1) assms(2) ch assms(4), of g] st(2,3,4) lg
  show ?thesis by (simp add: run_app_def)
qed

lemma p_burst_from_reachable:
  assumes "p0 = p_advance t (run_plugin evs new_plugin)"
    and "registered p0"
    and "within_window 700 (t # map fst rest)"
    and "last (t # map fst rest) + 700 \<le> T"
  shows "p_calls (p_advance T (run_plugin
            (map (\<lambda>(t, doc, pos). Provide t doc pos) ((t, doc, pos) # rest)) p0)) =
           p_calls p0 @
             (case last ((doc, pos) # map snd rest) of
                (doc, pos) \<Rightarrow> if 10 \<le> length (trim (take pos doc)) then [take pos doc] else [])
       \<and> (\<exists>call. fired (p_advance T (run_plugin
            (map (\<lambda>(t, doc, pos). Provide t doc pos) ((t, doc, pos) # rest)) p0)) =
             fired p0 @ [call])"
proof -
  have inv: "plugin_inv p0"
    unfolding assms(1) by (intro plugin_inv_p_advance plugin_inv_run plugin_inv_new)
  from inv have c1: "\<forall>(h, d, c, pos) \<in> set (p_timers p0). debounceTimeout p0 = Some h"
    by (simp add: plugin_inv_def)
  have c2: "\<forall>(h, d, c, pos) \<in> set (p_timers p0). t < d"
    unfolding assms(1) by auto
  from inv assms(2) have a: "ai p0" by (simp add: plugin_inv_def)
  note st = provide_starts_debounce [OF c1 c2 assms(2) a, of doc pos]
  from p_burst_coalesces [OF st(1) assms(3,4)] st(2,3,4)
  show ?thesis by (simp add: run_plugin_def)
qed

section \<open>The accept gesture\<close>

text \<open>
  C6. Let \<open>s\<close> be the state of the standalone component at time \<open>now\<close>, after any
  sequence of events, with a non-empty suggestion. Pressing Tab then calls
  \<open>preventDefault\<close>, sets the buffer to the previous buffer followed by the
  suggestion and clears the suggestion; and once the zero-delay timer registered by the
  handler has run, the selection start and end are both the length of the new buffer,
  whose text and empty suggestion are unchanged by then.
\<close>

theorem C6_tab_accept:
  assumes "s = advance g now (run_app g evs (App_mount key))"
    and "inlineSuggestion s \<noteq> []"
  shows "fst (handleKeyDown now (js ''Tab'') s)
       \<and> code (snd (handleKeyDown now (js ''Tab'') s)) = code s @ inlineSuggestion s
       \<and> inlineSuggestion (snd (handleKeyDown now (js ''Tab'') s)) = []
       \<and> selection (advance g now (snd (handleKeyDown now (js ''Tab'') s))) =
           (length (code s @ inlineSuggestion s), length (code s @ inlineSuggestion s))
       \<and> code (advance g now (snd (handleKeyDown now (js ''Tab'') s))) =
           code s @ inlineSuggestion s
       \<and> inlineSuggestion (advance g now (snd (handleKeyDown now (js ''Tab'') s))) = []"
proof -
  have inv: "app_inv s"
    unfolding assms(1) by (intro app_inv_advance app_inv_run app_inv_mount)
  have late: "\<forall>(h, d, j) \<in> set (timers s). now < d"
    unfolding assms(1) by (rule advance_not_due)
  let ?s' = "snd (handleKeyDown now (js ''Tab'') s)"
  note st = tab_accept_state [OF assms(2), of now]
  from inv have "editorRef s" by (simp add: app_inv_def)
  with st(4) have ed: "editorRef ?s'" by simp
  note adv = advance_single_cursor [OF tab_accept_timers [OF inv late assms(2)] ed, of g]
  from st adv show ?thesis by simp
qed

theorem C6_tab_accept_witness:
  "inlineSuggestion (advance getCodeSuggestions 1300
       (run_app getCodeSuggestions
          [Change 100 (js ''abc''), Wait 1000, Respond 1200 2 (Inr (Some (js ''def'')))]
          (App_mount (Some (js ''k''))))) \<noteq> []
   \<and> code (snd (handleKeyDown 1300 (js ''Tab'')
        (advance getCodeSuggestions 1300
          (run_app getCodeSuggestions
            [Change 100 (js ''abc''), Wait 1000, Respond 1200 2 (Inr (Some (js ''def'')))]
            (App_mount (Some (js ''k''))))))) = js ''abcdef''"
proof -
  define s where "s = advance getCodeSuggestions 1300
       (run_app getCodeSuggestions
          [Change 100 (js ''abc''), Wait 1000, Respond 1200 2 (Inr (Some (js ''def'')))]
          (App_mount (Some (js ''k''))))"
  have a: "inlineSuggestion s = js ''def''" unfolding s_def by code_simp
  have b: "code s = js ''abc''" unfolding s_def by code_simp
  from a have ne: "inlineSuggestion s \<noteq> []" by (simp add: js_def)
  from C6_tab_accept [OF s_def ne] a b ne show ?thesis
    unfolding s_def by (simp add: js_def)
qed

section \<open>The client handle of a registered provider\<close>

text \<open>
  C10. In every state the plugin reaches from its construction, by whatever events:
  if the provider is registered, the client handle is there and some \<open>init\<close> ran with
  a present API key and got past the registration (the constructor of the client
  before it); and whenever a timer callback of the provider is pending or suspended at
  its remote call, the client handle is there, so that the test \<open>!this.#ai\<close> of
  \<open>#getCodeSuggestion\<close> is false each time a callback gets to it.
\<close>

theorem C10_client_present:
  "(registered (run_plugin evs new_plugin) \<longrightarrow>
      ai (run_plugin evs new_plugin)
      \<and> (\<exists>t key throws. HostInit t key throws \<in> set evs \<and> truthy key
             \<and> (throws = NoThrow \<or> throws = ThrowsAtToast)))
   \<and> (p_timers (run_plugin evs new_plugin) \<noteq> [] \<longrightarrow> ai (run_plugin evs new_plugin))
   \<and> (awaiting (run_plugin evs new_plugin) \<noteq> [] \<longrightarrow> ai (run_plugin evs new_plugin))"
proof -
  have "plugin_inv (run_plugin evs new_plugin)"
    by (rule plugin_inv_run [OF plugin_inv_new])
  moreover have "registered (run_plugin evs new_plugin) \<Longrightarrow>
      \<exists>t key throws. HostInit t key throws \<in> set evs \<and> truthy key
         \<and> (throws = NoThrow \<or> throws = ThrowsAtToast)"
    using registered_run [of evs new_plugin] by (simp add: new_plugin_def)
  ultimately show ?thesis unfolding plugin_inv_def by blast
qed

theorem C10_client_present_witness:
  "registered (run_plugin
      [HostInit 0 (Some (js ''k'')) NoThrow, Provide 10 (js ''function greet'') 14, Idle 1000,
       Provide 1100 (js ''function greet('') 15] new_plugin)
   \<and> p_timers (run_plugin
      [HostInit 0 (Some (js ''k'')) NoThrow, Provide 10 (js ''function greet'') 14, Idle 1000,
       Provide 1100 (js ''function greet('') 15] new_plugin) \<noteq> []
   \<and> awaiting (run_plugin
      [HostInit 0 (Some (js ''k'')) NoThrow, Provide 10 (js ''function greet'') 14, Idle 1000,
       Provide 1100 (js ''function greet('') 15] new_plugin) \<noteq> []
   \<and> ai (run_plugin
      [HostInit 0 (Some (js ''k'')) NoThrow, Provide 10 (js ''function greet'') 14, Idle 1000,
       Provide 1100 (js ''function greet('') 15] new_plugin)"
proof -
  let ?s = "run_plugin
      [HostInit 0 (Some (js ''k'')) NoThrow, Provide 10 (js ''function greet'') 14, Idle 1000,
       Provide 1100 (js ''function greet('') 15] new_plugin"
  have "registered ?s" by code_simp
  moreover have "p_timers ?s \<noteq> []" by code_simp
  moreover have "awaiting ?s \<noteq> []" by code_simp
  ultimately show ?thesis
    using C10_client_present [of "[HostInit 0 (Some (js ''k'')) NoThrow,
       Provide 10 (js ''function greet'') 14, Idle 1000,
       Provide 1100 (js ''function greet('') 15]"]
    by blast
qed

section \<open>Debounce coalescing\<close>

text \<open>
  C2 (as amended). Take the standalone component at time \<open>t\<close> after any sequence of
  events, and a burst of text changes starting at \<open>t\<close>, each less than 500 ms after the
  previous one and each changing the text. Once 500 ms have passed after the last
  one, \<open>fetchSuggestions\<close> has run exactly once more, for the text of the last edit
  (every earlier timer of the burst was cleared before it fired), and exactly one more
  remote call has been made, carrying that text, if its trimmed length is at least 3
  and an API key is set; otherwise no remote call has been made. Likewise for the
  plugin, registered, at time \<open>pt\<close>, and a burst of invocations of the provider, each
  less than 700 ms after the previous one: once 700 ms have passed after the last one,
  exactly one more timer callback has run, and one more remote call has been made,
  carrying the text before the cursor of the last invocation, if the trimmed length of
  that text is at least 10; otherwise none.
\<close>

theorem C2_debounce_coalescing:
  assumes "s0 = advance g t (run_app g evs (App_mount key))"
    and "within_window 500 (t # map fst rest)"
    and "changes (code s0) (v # map snd rest)"
    and "last (t # map fst rest) + 500 \<le> T"
    and "p0 = p_advance pt (run_plugin pevs new_plugin)"
    and "registered p0"
    and "within_window 700 (pt # map fst prest)"
    and "last (pt # map fst prest) + 700 \<le> PT"
  shows "fetched (advance g T (run_app g (map (\<lambda>(t, v). Change t v) ((t, v) # rest)) s0)) =
           fetched s0 @ [last (v # map snd rest)]
       \<and> calls (advance g T (run_app g (map (\<lambda>(t, v). Change t v) ((t, v) # rest)) s0)) =
           calls s0 @ (if 3 \<le> length (trim (last (v # map snd rest))) \<and> truthy (env_API_KEY s0)
                       then [last (v # map snd rest)] else [])
       \<and> p_calls (p_advance PT (run_plugin
            (map (\<lambda>(t, doc, pos). Provide t doc pos) ((pt, doc, pos) # prest)) p0)) =
           p_calls p0 @
             (case last ((doc, pos) # map snd prest) of
                (doc, pos) \<Rightarrow> if 10 \<le> length (trim (take pos doc)) then [take pos doc] else [])
       \<and> (\<exists>call. fired (p_advance PT (run_plugin
            (map (\<lambda>(t, doc, pos). Provide t doc pos) ((pt, doc, pos) # prest)) p0)) =
             fired p0 @ [call])"
  using app_burst_from_reachable [OF assms(1-4)] p_burst_from_reachable [OF assms(5-8)]
  by blast

theorem C2_debounce_coalescing_witness:
  "within_window 500 (100 # map fst [(200, js ''abcd'')])
   \<and> changes (code (advance getCodeSuggestions 100
          (run_app getCodeSuggestions [] (App_mount (Some (js ''k''))))))
        (js ''abc'' # map snd [(200 :: nat, js ''abcd'')])
   \<and> last (100 # map fst [(200 :: nat, js ''abcd'')]) + 500 \<le> (700 :: nat)
   \<and> registered (p_advance 100 (run_plugin [HostInit 0 (Some (js ''k'')) NoThrow] new_plugin))
   \<and> within_window 700 (100 # map fst [(300, js ''function greet'', 14 :: nat)])
   \<and> last (100 # map fst [(300 :: nat, js ''function greet'', 14 :: nat)]) + 700 \<le> (1000 :: nat)
   \<and> calls (advance getCodeSuggestions 700
          (run_app getCodeSuggestions [Change 100 (js ''abc''), Change 200 (js ''abcd'')]
             (advance getCodeSuggestions 100
                (run_app getCodeSuggestions [] (App_mount (Some (js ''k''))))))) = [js ''abcd'']
   \<and> p_calls (p_advance 1000
          (run_plugin [Provide 100 (js ''function gree'') 13, Provide 300 (js ''function greet'') 14]
             (p_advance 100 (run_plugin [HostInit 0 (Some (js ''k'')) NoThrow] new_plugin)))) =
        [js ''function greet'']"
proof -
  let ?s0 = "advance getCodeSuggestions 100
          (run_app getCodeSuggestions [] (App_mount (Some (js ''k''))))"
  let ?p0 = "p_advance 100 (run_plugin [HostInit 0 (Some (js ''k'')) NoThrow] new_plugin)"
  have h2: "within_window 500 (100 # map fst [(200, js ''abcd'')])" by simp
  have h3: "changes (code ?s0) (js ''abc'' # map snd [(200 :: nat, js ''abcd'')])" by code_simp
  have h4: "last (100 # map fst [(200 :: nat, js ''abcd'')]) + 500 \<le> (700 :: nat)" by simp
  have h6: "registered ?p0" by code_simp
  have h7: "within_window 700 (100 # map fst [(300, js ''function greet'', 14 :: nat)])" by simp
  have h8: "last (100 # map fst [(300 :: nat, js ''function greet'', 14 :: nat)]) + 700 \<le> (1000 :: nat)"
    by simp
  have c0: "calls ?s0 = []" by code_simp
  have k0: "truthy (env_API_KEY ?s0)" by code_simp
  have l0: "3 \<le> length (trim (js ''abcd''))" by code_simp
  have p0: "p_calls ?p0 = []" by code_simp
  have l1: "10 \<le> length (trim (take 14 (js ''function greet'')))" by code_simp
  have t1: "take 14 (js ''function greet'') = js ''function greet''" by code_simp
  from C2_debounce_coalescing [OF refl h2 h3 h4 refl h6 h7 h8, of "js ''function gree''" 13]
    h2 h3 h4 h6 h7 h8 c0 k0 l0 p0 l1 t1
  show ?thesis by simp
qed

text \<open>
  The claim as written fails: a burst whose last text is shorter than the minimum ends
  with no outbound call at all.
\<close>

theorem C2_counterexample:
  "within_window 500 [100, 200]
   \<and> calls (advance getCodeSuggestions 1000
        (run_app getCodeSuggestions [Change 100 (js ''a''), Change 200 (js ''ab'')]
           (App_mount (Some (js ''k''))))) = []
   \<and> within_window 700 [100, 300]
   \<and> p_calls (p_advance 1000
        (run_plugin [HostInit 0 (Some (js ''k'')) NoThrow,
                     Provide 100 (js ''let'') 3, Provide 300 (js ''let x'') 5] new_plugin)) = []"
  by code_simp

section \<open>Superseded requests in the embedded variant\<close>

text \<open>
  In the standalone component the result of a request whose signal is aborted changes
  nothing: every update of \<open>fetchSuggestions\<close> after the \<open>await\<close> is guarded by
  \<open>!signal.aborted\<close>.
\<close>

lemma standalone_superseded_ignored:
  "signal \<in> aborted s \<Longrightarrow> fetchSuggestions_resume signal result s = s"
  by (simp add: fetchSuggestions_resume_def split: sum.splits)

text \<open>
  C1, at the failing input. The provider is invoked at 0 ms and its timer fires at
  700 ms (request of invocation 0, controller 2); it is invoked again at 800 ms and
  that timer fires at 1500 ms, aborting controller 2 and issuing the request of
  invocation 3. At that point both requests are in flight and \<open>#isLoading\<close> is set.
  When the superseded request then fails at 1600 ms, its error is shown as a toast
  and \<open>#isLoading\<close> is cleared, although the latest request is still in flight; when
  it instead succeeds, \<open>#isLoading\<close> is cleared all the same.
\<close>

theorem C1_superseded_result_applied:
  "awaiting (run_plugin
      [HostInit 0 (Some (js ''k'')) NoThrow, Provide 0 (js ''function greet(name) {'') 22,
       Provide 800 (js ''function greet(name) { x'') 24, Idle 1500] new_plugin) = [(0, 2), (3, 5)]
   \<and> 2 \<in> p_aborted (run_plugin
      [HostInit 0 (Some (js ''k'')) NoThrow, Provide 0 (js ''function greet(name) {'') 22,
       Provide 800 (js ''function greet(name) { x'') 24, Idle 1500] new_plugin)
   \<and> p_isLoading (run_plugin
      [HostInit 0 (Some (js ''k'')) NoThrow, Provide 0 (js ''function greet(name) {'') 22,
       Provide 800 (js ''function greet(name) { x'') 24, Idle 1500] new_plugin)
   \<and> awaiting (run_plugin
      [HostInit 0 (Some (js ''k'')) NoThrow, Provide 0 (js ''function greet(name) {'') 22,
       Provide 800 (js ''function greet(name) { x'') 24, Idle 1500,
       Response 1600 0 (Inl (JsError (js ''Error'') (js ''boom'')))] new_plugin) = [(3, 5)]
   \<and> \<not> p_isLoading (run_plugin
      [HostInit 0 (Some (js ''k'')) NoThrow, Provide 0 (js ''function greet(name) {'') 22,
       Provide 800 (js ''function greet(name) { x'') 24, Idle 1500,
       Response 1600 0 (Inl (JsError (js ''Error'') (js ''boom'')))] new_plugin)
   \<and> last (toasts (run_plugin
      [HostInit 0 (Some (js ''k'')) NoThrow, Provide 0 (js ''function greet(name) {'') 22,
       Provide 800 (js ''function greet(name) { x'') 24, Idle 1500,
       Response 1600 0 (Inl (JsError (js ''Error'') (js ''boom'')))] new_plugin)) =
       js ''Gemini Error: boom''
   \<and> awaiting (run_plugin
      [HostInit 0 (Some (js ''k'')) NoThrow, Provide 0 (js ''function greet(name) {'') 22,
       Provide 800 (js ''function greet(name) { x'') 24, Idle 1500,
       Response 1600 0 (Inr (Some (js ''return 1;'')))] new_plugin) = [(3, 5)]
   \<and> \<not> p_isLoading (run_plugin
      [HostInit 0 (Some (js ''k'')) NoThrow, Provide 0 (js ''function greet(name) {'') 22,
       Provide 800 (js ''function greet(name) { x'') 24, Idle 1500,
       Response 1600 0 (Inr (Some (js ''return 1;'')))] new_plugin)"
  by code_simp

section \<open>The promise of a debounced invocation\<close>

lemma resolve_other:
  "i \<noteq> c \<Longrightarrow> map_of (resolved (resolve i items s)) c = map_of (resolved s) c"
  by (simp add: resolve_def map_add_def split: option.splits)

lemma resolve_nextId [simp]: "p_nextId (resolve i items s) = p_nextId s"
  by (simp add: resolve_def split: option.splits)

lemma provide_catch_other:
  "i \<noteq> c \<Longrightarrow> map_of (resolved (provide_catch i err s)) c = map_of (resolved s) c"
  by (simp add: provide_catch_def Let_def resolve_other toast_def split: thrown.splits)

lemma provide_catch_nextId [simp]: "p_nextId (provide_catch i err s) = p_nextId s"
  by (simp add: provide_catch_def Let_def toast_def split: thrown.splits)

lemma provide_resume_other:
  "i \<noteq> c \<Longrightarrow> map_of (resolved (provide_resume i result s)) c = map_of (resolved s) c"
  by (simp add: provide_resume_def Let_def resolve_other provide_catch_other
      split: sum.splits option.splits)

lemma provide_resume_nextId [simp]: "p_nextId (provide_resume i result s) = p_nextId s"
  by (simp add: provide_resume_def Let_def split: sum.splits option.splits)

lemma abandoned_debounced:
  assumes "abandoned c s" and "i \<noteq> c"
  shows "abandoned c (debounced i pos s)"
proof -
  define q where "q = (if p_isLoading s
                then (case abortController s of None \<Rightarrow> s | Some a \<Rightarrow> p_abort a s)
                else s)"
  have q: "resolved q = resolved s" "p_nextId q = p_nextId s" "p_timers q = p_timers s"
    "awaiting q = awaiting s"
    by (simp_all add: q_def p_abort_def split: option.splits)
  define q2 where "q2 = q\<lparr>p_isLoading := True, abortController := Some (p_nextId q),
                  fired := fired q @ [i], p_nextId := p_nextId q + 1\<rparr>"
  from assms(1) q have a2: "abandoned c q2"
    by (simp add: abandoned_def q2_def)
  have d: "debounced i pos s =
      (if length (trim (take pos (session q2))) < 10
       then (resolve i [] q2)\<lparr>p_isLoading := False\<rparr>
       else if \<not> ai (toast (js ''Gemini is thinking...'') q2)
            then provide_resume i (getCodeSuggestion (ai (toast (js ''Gemini is thinking...'') q2))
                   (Inr None) False) (toast (js ''Gemini is thinking...'') q2)
            else (toast (js ''Gemini is thinking...'') q2)
                   \<lparr>p_calls := p_calls (toast (js ''Gemini is thinking...'') q2) @
                                 [take pos (session q2)],
                     awaiting := awaiting (toast (js ''Gemini is thinking...'') q2) @
                                 [(i, p_nextId q)]\<rparr>)"
    by (simp add: debounced_def Let_def q_def [symmetric] q2_def)
  from a2 assms(2) show ?thesis
    unfolding d
    by (auto simp: abandoned_def resolve_other provide_resume_other toast_def)
qed

lemma abandoned_fold:
  assumes "abandoned c s" and "\<forall>(h, d, i, pos) \<in> set ts. i \<noteq> c"
  shows "abandoned c (fold (\<lambda>(h, d, i, pos). debounced i pos) ts s)"
  using assms
proof (induction ts arbitrary: s)
  case Nil
  then show ?case by simp
next
  case (Cons x xs)
  obtain h d i pos where x: "x = (h, d, i, pos)" by (cases x)
  from Cons.prems(2) x have "i \<noteq> c" by simp
  from abandoned_debounced [OF Cons.prems(1) this]
  have "abandoned c (debounced i pos s)" .
  moreover from Cons.prems(2) have "\<forall>(h, d, i, pos) \<in> set xs. i \<noteq> c" by simp
  ultimately show ?case using Cons.IH by (simp add: x)
qed

lemma abandoned_p_advance: "abandoned c s \<Longrightarrow> abandoned c (p_advance now s)"
proof -
  assume a: "abandoned c s"
  let ?due = "sort_key (\<lambda>(h, d, i, pos). d) (filter (\<lambda>(h, d, i, pos). d \<le> now) (p_timers s))"
  let ?s1 = "s\<lparr>p_timers := filter (\<lambda>(h, d, i, pos). \<not> d \<le> now) (p_timers s)\<rparr>"
  from a have 1: "abandoned c ?s1" by (auto simp: abandoned_def)
  from a have 2: "\<forall>(h, d, i, pos) \<in> set ?due. i \<noteq> c" by (auto simp: abandoned_def)
  from abandoned_fold [OF 1 2] show ?thesis by (simp add: p_advance_def Let_def)
qed

lemma abandoned_step: "abandoned c s \<Longrightarrow> abandoned c (plugin_step ev s)"
proof (cases ev)
  case (HostInit t key throws)
  assume "abandoned c s"
  then have "abandoned c (p_advance t s)" by (rule abandoned_p_advance)
  then show ?thesis
    by (simp add: HostInit abandoned_def init_def init_failed_def alert_def toast_def Let_def)
next
  case (HostDestroy t)
  assume "abandoned c s"
  then have "abandoned c (p_advance t s)" by (rule abandoned_p_advance)
  then show ?thesis
    by (auto simp: HostDestroy abandoned_def destroy_def p_clearTimeout_def p_abort_def
        split: option.splits)
next
  case (Provide t doc pos)
  assume "abandoned c s"
  then have "abandoned c (p_advance t s)" by (rule abandoned_p_advance)
  then show ?thesis
    by (auto simp: Provide abandoned_def provideCompletions_def p_clearTimeout_def Let_def
        split: option.splits)
next
  case (Response t i out)
  assume "abandoned c s"
  then have a: "abandoned c (p_advance t s)" by (rule abandoned_p_advance)
  show ?thesis
  proof (cases "map_of (awaiting (p_advance t s)) i")
    case None
    with a show ?thesis by (simp add: Response p_respond_def)
  next
    case (Some signal)
    then have "(i, signal) \<in> set (awaiting (p_advance t s))" by (rule map_of_SomeD)
    with a have "i \<noteq> c" by (auto simp: abandoned_def)
    with a Some show ?thesis
      by (auto simp: Response p_respond_def abandoned_def provide_resume_other)
  qed
next
  case (Idle t)
  assume "abandoned c s"
  then show ?thesis by (simp add: Idle abandoned_p_advance)
qed

lemma abandoned_run: "abandoned c s \<Longrightarrow> abandoned c (run_plugin evs s)"
  unfolding run_plugin_def by (induction evs arbitrary: s) (simp_all add: abandoned_step)

text \<open>
  The provider is invoked at 0 ms (invocation 0) and again at 100 ms (invocation 2),
  which clears the timer of the first. After the second timer has fired with a short
  text nothing is pending any more; the promise of invocation 2 has been resolved with
  the empty list, that of invocation 0 has not.
\<close>

lemma debounced_promise_quiescent:
  "p_timers (run_plugin
      [HostInit 0 (Some (js ''k'')) NoThrow, Provide 0 (js ''function greet(name) {'') 22,
       Provide 100 (js ''ab'') 2, Idle 900] new_plugin) = []
   \<and> awaiting (run_plugin
      [HostInit 0 (Some (js ''k'')) NoThrow, Provide 0 (js ''function greet(name) {'') 22,
       Provide 100 (js ''ab'') 2, Idle 900] new_plugin) = []
   \<and> fired (run_plugin
      [HostInit 0 (Some (js ''k'')) NoThrow, Provide 0 (js ''function greet(name) {'') 22,
       Provide 100 (js ''ab'') 2, Idle 900] new_plugin) = [2]
   \<and> map_of (resolved (run_plugin
      [HostInit 0 (Some (js ''k'')) NoThrow, Provide 0 (js ''function greet(name) {'') 22,
       Provide 100 (js ''ab'') 2, Idle 900] new_plugin)) 2 = Some []
   \<and> map_of (resolved (run_plugin
      [HostInit 0 (Some (js ''k'')) NoThrow, Provide 0 (js ''function greet(name) {'') 22,
       Provide 100 (js ''ab'') 2, Idle 900] new_plugin)) 0 = None"
  by code_simp

text \<open>
  C4, at the failing input. The provider is invoked at 0 ms (invocation 0) and again,
  within the debounce window, at 100 ms. The second invocation clears the timer of the
  first, and with it the only callback that could call the first promise's \<open>resolve\<close>:
  whatever happens later, the promise returned by invocation 0 is never resolved.
\<close>

theorem C4_debounced_promise_never_resolved:
  "map_of (resolved (run_plugin
      ([HostInit 0 (Some (js ''k'')) NoThrow, Provide 0 (js ''function greet(name) {'') 22,
        Provide 100 (js ''function greet(name) { r'') 24] @ later) new_plugin)) 0 = None"
proof -
  have "abandoned 0 (run_plugin
      [HostInit 0 (Some (js ''k'')) NoThrow, Provide 0 (js ''function greet(name) {'') 22,
       Provide 100 (js ''function greet(name) { r'') 24] new_plugin)"
    by code_simp
  then have "abandoned 0 (run_plugin later (run_plugin
      [HostInit 0 (Some (js ''k'')) NoThrow, Provide 0 (js ''function greet(name) {'') 22,
       Provide 100 (js ''function greet(name) { r'') 24] new_plugin))"
    by (rule abandoned_run)
  then show ?thesis by (simp add: abandoned_def run_plugin_def)
qed

section \<open>The completion candidate\<close>

lemma resolved_ok_cong: "resolved s' = resolved s \<Longrightarrow> resolved_ok s \<Longrightarrow> resolved_ok s'"
  by (simp add: resolved_ok_def)

lemma resolved_ok_resolve:
  assumes "resolved_ok s"
    and "items = [] \<or> (\<exists>suggestion. suggestion \<noteq> [] \<and> items = [make_candidate suggestion])"
  shows "resolved_ok (resolve call items s)"
  using assms by (auto simp: resolved_ok_def resolve_def split: option.splits)

lemma resolved_toast [simp]: "resolved (toast msg s) = resolved s"
  by (simp add: toast_def)

lemma resolved_ok_catch: "resolved_ok s \<Longrightarrow> resolved_ok (provide_catch call err s)"
proof (cases err)
  case (JsError n m)
  assume a: "resolved_ok s"
  let ?s = "if n \<noteq> js ''AbortError''
             then (let errorMessage =
                         (if str_includes m (js ''API key not valid'')
                          then js ''Invalid API Key. Please check your plugin settings.''
                          else m)
                   in toast (js ''Gemini Error: '' @ errorMessage) s)
             else s"
  have "resolved ?s = resolved s" by (simp add: Let_def)
  from resolved_ok_cong [OF this a] have "resolved_ok ?s" .
  then have "resolved_ok (resolve call [] ?s)" by (rule resolved_ok_resolve) simp
  then show ?thesis by (simp add: provide_catch_def JsError)
next
  case NonError
  assume "resolved_ok s"
  then show ?thesis by (simp add: provide_catch_def NonError)
qed

lemma resolved_ok_resume: "resolved_ok s \<Longrightarrow> resolved_ok (provide_resume call result s)"
proof -
  assume a: "resolved_ok s"
  let ?s1 = "case result of
                  Inr suggestion \<Rightarrow>
                    if suggestion = [] then resolve call [] s
                    else (case abortController s of
                            None \<Rightarrow>
                              provide_catch call
                                (JsError (js ''TypeError'')
                                   (js ''Cannot read properties of null (reading 'signal')'')) s
                          | Some c \<Rightarrow>
                              if c \<notin> p_aborted s
                              then resolve call [make_candidate suggestion] s
                              else resolve call [] s)
                | Inl err \<Rightarrow> provide_catch call err s"
  have "resolved_ok ?s1"
  proof (cases result)
    case (Inl err)
    with a show ?thesis by (simp add: resolved_ok_catch)
  next
    case (Inr suggestion)
    show ?thesis
    proof (cases "suggestion = []")
      case True
      with a Inr show ?thesis by (simp add: resolved_ok_resolve)
    next
      case False
      then have "[make_candidate suggestion] = [] \<or>
          (\<exists>sg. sg \<noteq> [] \<and> [make_candidate suggestion] = [make_candidate sg])"
        by blast
      from resolved_ok_resolve [OF a this, of call] resolved_ok_resolve [OF a, of "[]" call]
        resolved_ok_catch [OF a] False Inr
      show ?thesis by (simp split: option.splits)
    qed
  qed
  then have "resolved_ok (?s1\<lparr>p_isLoading := False\<rparr>)"
    by (simp add: resolved_ok_def)
  then show ?thesis by (simp add: provide_resume_def Let_def)
qed

lemma resolved_ok_debounced: "resolved_ok s \<Longrightarrow> resolved_ok (debounced call pos s)"
proof -
  assume a: "resolved_ok s"
  define q where "q = (if p_isLoading s
                then (case abortController s of None \<Rightarrow> s | Some c \<Rightarrow> p_abort c s)
                else s)"
  have "resolved q = resolved s"
    by (simp add: q_def p_abort_def split: option.splits)
  define q2 where "q2 = q\<lparr>p_isLoading := True, abortController := Some (p_nextId q),
                  fired := fired q @ [call], p_nextId := p_nextId q + 1\<rparr>"
  from \<open>resolved q = resolved s\<close> a have a2: "resolved_ok q2"
    by (simp add: resolved_ok_def q2_def)
  let ?s3 = "toast (js ''Gemini is thinking...'') q2"
  from a2 have a3: "resolved_ok ?s3" by (simp add: resolved_ok_def)
  have d: "debounced call pos s =
      (if length (trim (take pos (session q2))) < 10
       then (resolve call [] q2)\<lparr>p_isLoading := False\<rparr>
       else if \<not> ai ?s3
            then provide_resume call (getCodeSuggestion (ai ?s3) (Inr None) False) ?s3
            else ?s3\<lparr>p_calls := p_calls ?s3 @ [take pos (session q2)],
                     awaiting := awaiting ?s3 @ [(call, p_nextId q)]\<rparr>)"
    by (simp add: debounced_def Let_def q_def [symmetric] q2_def)
  have 1: "resolved_ok ((resolve call [] q2)\<lparr>p_isLoading := False\<rparr>)"
    using resolved_ok_resolve [OF a2, of "[]" call] by (simp add: resolved_ok_def)
  have 2: "resolved_ok (provide_resume call r ?s3)" for r
    using a3 by (rule resolved_ok_resume)
  have 3: "resolved_ok (?s3\<lparr>p_calls := p_calls ?s3 @ [take pos (session q2)],
                     awaiting := awaiting ?s3 @ [(call, p_nextId q)]\<rparr>)"
    using a3 by (simp add: resolved_ok_def)
  from 1 2 3 show ?thesis unfolding d by simp
qed

lemma resolved_ok_fold:
  "resolved_ok s \<Longrightarrow> resolved_ok (fold (\<lambda>(h, d, i, pos). debounced i pos) ts s)"
  by (induction ts arbitrary: s) (auto simp: resolved_ok_debounced)

lemma resolved_ok_p_advance: "resolved_ok s \<Longrightarrow> resolved_ok (p_advance now s)"
proof -
  assume "resolved_ok s"
  then have "resolved_ok (s\<lparr>p_timers := filter (\<lambda>(h, d, i, pos). \<not> d \<le> now) (p_timers s)\<rparr>)"
    by (simp add: resolved_ok_def)
  then show ?thesis unfolding p_advance_def Let_def by (rule resolved_ok_fold)
qed

lemma resolved_ok_step: "resolved_ok s \<Longrightarrow> resolved_ok (plugin_step ev s)"
proof (cases ev)
  case (HostInit t key throws)
  assume "resolved_ok s"
  then have "resolved_ok (p_advance t s)" by (rule resolved_ok_p_advance)
  then show ?thesis
    by (simp add: HostInit resolved_ok_def init_def init_failed_def alert_def Let_def)
next
  case (HostDestroy t)
  assume "resolved_ok s"
  then have "resolved_ok (p_advance t s)" by (rule resolved_ok_p_advance)
  then show ?thesis
    by (simp add: HostDestroy resolved_ok_def destroy_def p_clearTimeout_def p_abort_def
        split: option.splits)
next
  case (Provide t doc pos)
  assume "resolved_ok s"
  then have "resolved_ok (p_advance t s)" by (rule resolved_ok_p_advance)
  then show ?thesis
    by (simp add: Provide resolved_ok_def provideCompletions_def p_clearTimeout_def Let_def
        split: option.splits)
next
  case (Response t i out)
  assume "resolved_ok s"
  then have a: "resolved_ok (p_advance t s)" by (rule resolved_ok_p_advance)
  show ?thesis
  proof (cases "map_of (awaiting (p_advance t s)) i")
    case None
    with a show ?thesis by (simp add: Response p_respond_def)
  next
    case (Some signal)
    from a have "resolved_ok
        ((p_advance t s)\<lparr>awaiting := filter (\<lambda>(j, c). j \<noteq> i) (awaiting (p_advance t s))\<rparr>)"
      by (simp add: resolved_ok_def)
    then show ?thesis by (simp add: Response p_respond_def Some resolved_ok_resume)
  qed
next
  case (Idle t)
  assume "resolved_ok s"
  then show ?thesis by (simp add: Idle resolved_ok_p_advance)
qed

lemma resolved_ok_run: "resolved_ok s \<Longrightarrow> resolved_ok (run_plugin evs s)"
  unfolding run_plugin_def by (induction evs arbitrary: s) (simp_all add: resolved_ok_step)

lemma resolved_ok_new: "resolved_ok new_plugin"
  by (simp add: resolved_ok_def new_plugin_def)

text \<open>
  C7 (as amended). The candidate built from a suggestion has as caption the first line
  of the suggestion (the text before its first line feed), cut to at most 50 code
  units, always followed by the marker \<open>...\<close>; as value the whole suggestion; the
  score 1000; and the label \<open>Gemini AI\<close>. And whatever happens to the plugin, every
  list a promise of the provider was resolved with is empty or holds exactly that
  candidate of a non-empty suggestion.
\<close>

theorem C7_candidate_fields:
  "caption (make_candidate s) = take 50 (takeWhile (\<lambda>c. c \<noteq> 0xA) s) @ js ''...''
   \<and> value (make_candidate s) = s
   \<and> score (make_candidate s) = 1000
   \<and> meta (make_candidate s) = js ''Gemini AI''
   \<and> (\<forall>(call, items) \<in> set (resolved (run_plugin evs new_plugin)).
         items = [] \<or> (\<exists>suggestion. suggestion \<noteq> [] \<and> items = [make_candidate suggestion]))"
proof -
  have "resolved_ok (run_plugin evs new_plugin)"
    by (rule resolved_ok_run [OF resolved_ok_new])
  then show ?thesis
    unfolding resolved_ok_def
    by (simp add: make_candidate_def substring0_def hd_split_on)
qed

theorem C7_candidate_fields_witness:
  "(0, [make_candidate (js ''return 1;'')]) \<in> set (resolved (run_plugin
      [HostInit 0 (Some (js ''k'')) NoThrow, Provide 0 (js ''function f() {'') 14, Idle 700,
       Response 800 0 (Inr (Some (js ''return 1;'')))] new_plugin))
   \<and> caption (make_candidate (js ''return 1;'')) = js ''return 1;...''"
proof -
  have a: "resolved (run_plugin
      [HostInit 0 (Some (js ''k'')) NoThrow, Provide 0 (js ''function f() {'') 14, Idle 700,
       Response 800 0 (Inr (Some (js ''return 1;'')))] new_plugin) =
      [(0, [make_candidate (js ''return 1;'')])]"
    by code_simp
  have b: "take 50 (takeWhile (\<lambda>c. c \<noteq> 0xA) (js ''return 1;'')) @ js ''...'' = js ''return 1;...''"
    by (simp add: js_def)
  from C7_candidate_fields [of "js ''return 1;''"
      "[HostInit 0 (Some (js ''k'')) NoThrow, Provide 0 (js ''function f() {'') 14, Idle 700,
       Response 800 0 (Inr (Some (js ''return 1;'')))]"] a b
  show ?thesis by simp
qed

text \<open>A one-character suggestion already gets the marker.\<close>

theorem C7_counterexample:
  "length (js ''x'') \<le> 50 \<and> caption (make_candidate (js ''x'')) = js ''x...''"
  by (simp add: make_candidate_def substring0_def js_def)

section \<open>The length guard at the level of events\<close>

lemma resolved_keys_resolve:
  "fst ` set (resolved (resolve i items s)) \<subseteq> insert i (fst ` set (resolved s))"
  by (auto simp: resolve_def split: option.splits)

lemma resolved_keys_catch:
  "fst ` set (resolved (provide_catch i err s)) \<subseteq> insert i (fst ` set (resolved s))"
proof (cases err)
  case (JsError n m)
  let ?s = "if n \<noteq> js ''AbortError''
             then (let errorMessage =
                         (if str_includes m (js ''API key not valid'')
                          then js ''Invalid API Key. Please check your plugin settings.''
                          else m)
                   in toast (js ''Gemini Error: '' @ errorMessage) s)
             else s"
  have "resolved ?s = resolved s" by (simp add: Let_def)
  with resolved_keys_resolve [of i "[]" ?s] show ?thesis
    by (simp add: provide_catch_def JsError)
next
  case NonError
  then show ?thesis by (auto simp: provide_catch_def)
qed

lemma resolved_keys_resume:
  "fst ` set (resolved (provide_resume i result s)) \<subseteq> insert i (fst ` set (resolved s))"
proof -
  let ?s1 = "case result of
                  Inr suggestion \<Rightarrow>
                    if suggestion = [] then resolve i [] s
                    else (case abortController s of
                            None \<Rightarrow>
                              provide_catch i
                                (JsError (js ''TypeError'')
                                   (js ''Cannot read properties of null (reading 'signal')'')) s
                          | Some c \<Rightarrow>
                              if c \<notin> p_aborted s
                              then resolve i [make_candidate suggestion] s
                              else resolve i [] s)
                | Inl err \<Rightarrow> provide_catch i err s"
  have "fst ` set (resolved ?s1) \<subseteq> insert i (fst ` set (resolved s))"
    using resolved_keys_resolve [of i _ s] resolved_keys_catch [of i _ s]
    by (simp split: sum.splits option.splits)
  moreover have "resolved (provide_resume i result s) = resolved ?s1"
    by (simp add: provide_resume_def Let_def)
  ultimately show ?thesis by simp
qed

lemma ids_issued_keys:
  "ids_issued s \<longleftrightarrow>
     (\<forall>c \<in> fst ` set (resolved s). c < p_nextId s)
     \<and> (\<forall>(h, d, i, pos) \<in> set (p_timers s). i < p_nextId s)
     \<and> (\<forall>(i, signal) \<in> set (awaiting s). i < p_nextId s)"
  by (auto simp: ids_issued_def)

lemma ids_issued_from_keys:
  assumes "ids_issued s" and "i < p_nextId s"
    and "fst ` set (resolved s') \<subseteq> insert i (fst ` set (resolved s))"
    and "p_timers s' = p_timers s" and "awaiting s' = awaiting s"
    and "p_nextId s' = p_nextId s"
  shows "ids_issued s'"
proof -
  have "\<forall>c \<in> fst ` set (resolved s'). c < p_nextId s'"
  proof
    fix c assume "c \<in> fst ` set (resolved s')"
    with assms(3) have "c = i \<or> c \<in> fst ` set (resolved s)" by blast
    with assms(1,2) have "c < p_nextId s" unfolding ids_issued_keys by blast
    with assms(6) show "c < p_nextId s'" by simp
  qed
  with assms(1,4,5,6) show ?thesis unfolding ids_issued_keys by simp
qed

lemma ids_issued_debounced:
  assumes "ids_issued s" and "i < p_nextId s"
  shows "ids_issued (debounced i pos s)"
    and "p_nextId s \<le> p_nextId (debounced i pos s)"
proof -
  define q where "q = (if p_isLoading s
                then (case abortController s of None \<Rightarrow> s | Some a \<Rightarrow> p_abort a s)
                else s)"
  have q: "resolved q = resolved s" "p_nextId q = p_nextId s" "p_timers q = p_timers s"
    "awaiting q = awaiting s"
    by (simp_all add: q_def p_abort_def split: option.splits)
  define q2 where "q2 = q\<lparr>p_isLoading := True, abortController := Some (p_nextId q),
                  fired := fired q @ [i], p_nextId := p_nextId q + 1\<rparr>"
  from assms q have a2: "ids_issued q2" and i2: "i < p_nextId q2"
    and n2: "p_nextId q2 = p_nextId s + 1"
    by (auto simp: ids_issued_def q2_def)
  let ?s3 = "toast (js ''Gemini is thinking...'') q2"
  have d: "debounced i pos s =
      (if length (trim (take pos (session q2))) < 10
       then (resolve i [] q2)\<lparr>p_isLoading := False\<rparr>
       else if \<not> ai ?s3
            then provide_resume i (getCodeSuggestion (ai ?s3) (Inr None) False) ?s3
            else ?s3\<lparr>p_calls := p_calls ?s3 @ [take pos (session q2)],
                     awaiting := awaiting ?s3 @ [(i, p_nextId q)]\<rparr>)"
    by (simp add: debounced_def Let_def q_def [symmetric] q2_def)
  have 1: "ids_issued ((resolve i [] q2)\<lparr>p_isLoading := False\<rparr>)"
    by (rule ids_issued_from_keys [OF a2 i2]) (simp_all add: resolved_keys_resolve)
  have s3: "resolved ?s3 = resolved q2" "p_nextId ?s3 = p_nextId q2"
    by (simp_all add: toast_def)
  have 2: "ids_issued (provide_resume i r ?s3)" for r
  proof (rule ids_issued_from_keys [OF a2 i2])
    from resolved_keys_resume [of i r ?s3] s3(1)
    show "fst ` set (resolved (provide_resume i r ?s3)) \<subseteq> insert i (fst ` set (resolved q2))"
      by simp
  qed (simp_all add: toast_def)
  have 3: "ids_issued (?s3\<lparr>p_calls := p_calls ?s3 @ [take pos (session q2)],
                     awaiting := awaiting ?s3 @ [(i, p_nextId q)]\<rparr>)"
    using a2 i2 unfolding ids_issued_def by (auto simp: toast_def)
  from 1 2 3 show "ids_issued (debounced i pos s)" unfolding d by simp
  from n2 show "p_nextId s \<le> p_nextId (debounced i pos s)"
    unfolding d by (simp add: toast_def)
qed

lemma ids_issued_fold:
  assumes "ids_issued s" and "\<forall>(h, d, i, pos) \<in> set ts. i < p_nextId s"
  shows "ids_issued (fold (\<lambda>(h, d, i, pos). debounced i pos) ts s)"
  using assms
proof (induction ts arbitrary: s)
  case Nil
  then show ?case by simp
next
  case (Cons x xs)
  obtain h d i pos where x: "x = (h, d, i, pos)" by (cases x)
  from Cons.prems(2) x have i: "i < p_nextId s" by simp
  note st = ids_issued_debounced [OF Cons.prems(1) i, of pos]
  have "\<forall>(h, d, j, p) \<in> set xs. j < p_nextId (debounced i pos s)"
    using Cons.prems(2) st(2) by fastforce
  from Cons.IH [OF st(1) this] show ?case by (simp add: x)
qed

lemma ids_issued_p_advance: "ids_issued s \<Longrightarrow> ids_issued (p_advance now s)"
proof -
  assume a: "ids_issued s"
  let ?due = "sort_key (\<lambda>(h, d, i, pos). d) (filter (\<lambda>(h, d, i, pos). d \<le> now) (p_timers s))"
  let ?s1 = "s\<lparr>p_timers := filter (\<lambda>(h, d, i, pos). \<not> d \<le> now) (p_timers s)\<rparr>"
  from a have 1: "ids_issued ?s1" by (auto simp: ids_issued_def)
  from a have 2: "\<forall>(h, d, i, pos) \<in> set ?due. i < p_nextId ?s1" by (auto simp: ids_issued_def)
  from ids_issued_fold [OF 1 2] show ?thesis by (simp add: p_advance_def Let_def)
qed

lemma ids_issued_init: "ids_issued s \<Longrightarrow> ids_issued (init key throws s)"
  by (simp add: ids_issued_def init_def init_failed_def alert_def toast_def Let_def)

lemma ids_issued_destroy: "ids_issued s \<Longrightarrow> ids_issued (destroy s)"
proof -
  assume a: "ids_issued s"
  have "resolved (destroy s) = resolved s" "awaiting (destroy s) = awaiting s"
    "p_nextId (destroy s) = p_nextId s"
    by (simp_all add: destroy_def p_clearTimeout_def p_abort_def split: option.splits)
  moreover have "set (p_timers (destroy s)) \<subseteq> set (p_timers s)"
    by (auto simp: destroy_def p_clearTimeout_def p_abort_def split: option.splits)
  ultimately show ?thesis using a unfolding ids_issued_def by auto
qed

lemma ids_issued_provide:
  assumes "ids_issued s"
  shows "ids_issued (provideCompletions now pos s)"
proof -
  let ?s' = "provideCompletions now pos s"
  have r: "resolved ?s' = resolved s" "awaiting ?s' = awaiting s"
    "p_nextId ?s' = p_nextId s + 2"
    by (simp_all add: provideCompletions_def p_clearTimeout_def Let_def split: option.splits)
  have t: "set (p_timers ?s') \<subseteq>
      insert (p_nextId s + 1, now + 700, p_nextId s, pos) (set (p_timers s))"
    by (auto simp: provideCompletions_def p_clearTimeout_def Let_def split: option.splits)
  have "\<forall>(h, d, i, p) \<in> set (p_timers ?s'). i < p_nextId ?s'"
  proof clarify
    fix h d i p assume "(h, d, i, p) \<in> set (p_timers ?s')"
    with t have "i = p_nextId s \<or> (h, d, i, p) \<in> set (p_timers s)" by auto
    with assms have "i < p_nextId s + 2" by (auto simp: ids_issued_def)
    with r(3) show "i < p_nextId ?s'" by simp
  qed
  moreover from assms r have "\<forall>(c, items) \<in> set (resolved ?s'). c < p_nextId ?s'"
    by (auto simp: ids_issued_def)
  moreover from assms r have "\<forall>(i, signal) \<in> set (awaiting ?s'). i < p_nextId ?s'"
    by (auto simp: ids_issued_def)
  ultimately show ?thesis by (simp add: ids_issued_def)
qed

lemma ids_issued_session: "ids_issued s \<Longrightarrow> ids_issued (s\<lparr>session := doc\<rparr>)"
  by (simp add: ids_issued_def)

lemma ids_issued_respond: "ids_issued s \<Longrightarrow> ids_issued (p_respond i out s)"
proof (cases "map_of (awaiting s) i")
  case None
  assume "ids_issued s"
  with None show ?thesis by (simp add: p_respond_def)
next
  case (Some signal)
  assume a: "ids_issued s"
  let ?p = "s\<lparr>awaiting := filter (\<lambda>(j, c). j \<noteq> i) (awaiting s)\<rparr>"
  from Some have "(i, signal) \<in> set (awaiting s)" by (rule map_of_SomeD)
  with a have i: "i < p_nextId ?p" by (auto simp: ids_issued_def)
  from a have p: "ids_issued ?p" by (auto simp: ids_issued_def)
  have "ids_issued (provide_resume i (getCodeSuggestion True out (signal \<in> p_aborted ?p)) ?p)"
  proof (rule ids_issued_from_keys [OF p i])
    show "fst ` set (resolved (provide_resume i
              (getCodeSuggestion True out (signal \<in> p_aborted ?p)) ?p))
          \<subseteq> insert i (fst ` set (resolved ?p))"
      by (rule resolved_keys_resume)
  qed simp_all
  then show ?thesis by (simp add: p_respond_def Some)
qed

lemma ids_issued_step: "ids_issued s \<Longrightarrow> ids_issued (plugin_step ev s)"
  by (cases ev)
    (simp_all add: Let_def ids_issued_p_advance ids_issued_init ids_issued_destroy
      ids_issued_provide ids_issued_session ids_issued_respond)

lemma ids_issued_run: "ids_issued s \<Longrightarrow> ids_issued (run_plugin evs s)"
  unfolding run_plugin_def by (induction evs arbitrary: s) (simp_all add: ids_issued_step)

lemma ids_issued_new: "ids_issued new_plugin"
  by (simp add: ids_issued_def new_plugin_def)

lemma next_id_unresolved: "ids_issued s \<Longrightarrow> map_of (resolved s) (p_nextId s) = None"
proof -
  assume "ids_issued s"
  then have "p_nextId s \<notin> fst ` set (resolved s)" unfolding ids_issued_keys by auto
  then show ?thesis by (simp add: map_of_eq_None_iff)
qed

text \<open>
  What the guard does when the debounce timer is left to fire. From any state the
  plugin can reach with the provider registered, an invocation on a short text makes
  no remote call and its promise is resolved with the empty list; from any state the
  standalone component can reach, an edit to a short text clears the suggestion at
  once, makes no remote call, and leaves the suggestion empty after the timer.
\<close>

lemma short_invocation_left_to_fire:
  assumes "p0 = p_advance t (run_plugin evs new_plugin)"
    and "registered p0"
    and "length (trim (take pos doc)) < 10"
    and "t + 700 \<le> T"
  shows "p_calls (p_advance T (plugin_step (Provide t doc pos) p0)) = p_calls p0
       \<and> fired (p_advance T (plugin_step (Provide t doc pos) p0)) = fired p0 @ [p_nextId p0]
       \<and> map_of (resolved (p_advance T (plugin_step (Provide t doc pos) p0))) (p_nextId p0) =
           Some []"
proof -
  have inv: "plugin_inv p0"
    unfolding assms(1) by (intro plugin_inv_p_advance plugin_inv_run plugin_inv_new)
  have ids: "ids_issued p0"
    unfolding assms(1) by (intro ids_issued_p_advance ids_issued_run ids_issued_new)
  from inv have c1: "\<forall>(h, d, c, pos) \<in> set (p_timers p0). debounceTimeout p0 = Some h"
    by (simp add: plugin_inv_def)
  have c2: "\<forall>(h, d, c, pos) \<in> set (p_timers p0). t < d"
    unfolding assms(1) by auto
  let ?p1 = "p0\<lparr>session := doc\<rparr>"
  let ?s1 = "provideCompletions t pos ?p1"
  from c1 have c1': "\<forall>(h, d, c, pos) \<in> set (p_timers ?p1). debounceTimeout ?p1 = Some h"
    by simp
  from assms(2) have step: "plugin_step (Provide t doc pos) p0 = ?s1"
    by (simp add: p_advance_idle [OF c2])
  have tm: "p_timers ?s1 = [(p_nextId p0 + 1, t + 700, p_nextId p0, pos)]"
    using provideCompletions_timers(1) [OF c1', of t pos] by simp
  let ?s2 = "?s1\<lparr>p_timers := []\<rparr>"
  from p_advance_fire [OF tm assms(4)]
  have fire: "p_advance T ?s1 = debounced (p_nextId p0) pos ?s2" .
  have short: "length (trim (take pos (session ?s2))) < 10"
    using assms(3) by simp
  have "resolved ?s2 = resolved p0"
    by (simp add: provideCompletions_def p_clearTimeout_def Let_def split: option.splits)
  with next_id_unresolved [OF ids] have fresh: "map_of (resolved ?s2) (p_nextId p0) = None"
    by simp
  from short fresh have g: "length (trim (take pos (session ?s2))) < 10
      \<and> map_of (resolved ?s2) (p_nextId p0) = None" by blast
  from length_guard_callbacks [of undefined undefined undefined undefined pos ?s2 "p_nextId p0"] g
  have "p_calls (debounced (p_nextId p0) pos ?s2) = p_calls ?s2"
    and "map_of (resolved (debounced (p_nextId p0) pos ?s2)) (p_nextId p0) = Some []"
    by blast+
  then show ?thesis unfolding step fire by simp
qed

lemma fold_short_keeps_empty:
  assumes "inlineSuggestion s = []"
    and "\<forall>(h, d, j) \<in> set ts. is_fetch j \<longrightarrow> length (trim (fetch_code j)) < 3"
  shows "inlineSuggestion (fold (\<lambda>(h, d, j). run_task g j) ts s) = []"
  using assms
proof (induction ts arbitrary: s)
  case Nil
  then show ?case by simp
next
  case (Cons x xs)
  obtain h d j where x: "x = (h, d, j)" by (cases x)
  have "inlineSuggestion (run_task g j s) = []"
  proof (cases j)
    case (FetchTask v c)
    with Cons.prems(2) x have "length (trim v) < 3" by simp
    then show ?thesis by (simp add: FetchTask fetchSuggestions_def Let_def)
  next
    case (CursorTask n)
    with Cons.prems(1) show ?thesis by simp
  qed
  moreover from Cons.prems(2) have
    "\<forall>(h, d, j) \<in> set xs. is_fetch j \<longrightarrow> length (trim (fetch_code j)) < 3" by simp
  ultimately show ?case using Cons.IH by (simp add: x)
qed

lemma short_edit_left_to_fire:
  assumes "s0 = advance g t (run_app g evs (App_mount key))"
    and "v \<noteq> code s0"
    and "length (trim v) < 3"
    and "t + 500 \<le> T"
  shows "calls (advance g T (app_step g (Change t v) s0)) = calls s0
       \<and> fetched (advance g T (app_step g (Change t v) s0)) = fetched s0 @ [v]
       \<and> inlineSuggestion (app_step g (Change t v) s0) = []
       \<and> inlineSuggestion (advance g T (app_step g (Change t v) s0)) = []"
proof -
  from assms(2) have ch: "changes (code s0) (v # map snd [])" by simp
  have w: "within_window 500 (t # map fst [])" by simp
  from assms(4) have l: "last (t # map fst []) + 500 \<le> T" by simp
  from app_burst_from_reachable [OF assms(1) w ch l] assms(3)
  have logs: "calls (advance g T (app_step g (Change t v) s0)) = calls s0"
    "fetched (advance g T (app_step g (Change t v) s0)) = fetched s0 @ [v]"
    by (simp_all add: run_app_def)
  let ?s1 = "app_step g (Change t v) s0"
  have e1: "inlineSuggestion ?s1 = []" by (simp add: handleCodeChange_def)
  have inv: "app_inv s0"
    unfolding assms(1) by (intro app_inv_advance app_inv_run app_inv_mount)
  let ?a = "advance g t s0"
  from inv have "app_inv ?a" by (rule app_inv_advance)
  then have ft: "\<forall>(h, d, j) \<in> set (fetch_timers ?a). \<exists>c. cleanup ?a = Some (h, c)"
    by (simp add: app_inv_fetch_timers)
  from assms(2) have ne: "v \<noteq> code ?a" by simp
  from change_starts_debounce(1) [OF ft ne, of t]
  obtain h c where f1: "fetch_timers ?s1 = [(h, t + 500, FetchTask v c)]"
    by (auto simp: debouncing_def)
  have all_short: "\<forall>(h, d, j) \<in> set (timers ?s1). is_fetch j \<longrightarrow> length (trim (fetch_code j)) < 3"
  proof clarify
    fix h' d' j assume m: "(h', d', j) \<in> set (timers ?s1)" and f: "is_fetch j"
    then have "(h', d', j) \<in> set (fetch_timers ?s1)" by (simp add: fetch_timers_def)
    with f1 have "j = FetchTask v c" by simp
    with assms(3) show "length (trim (fetch_code j)) < 3" by simp
  qed
  let ?due = "sort_key (\<lambda>(h, d, j). d) (filter (\<lambda>(h, d, j). d \<le> T) (timers ?s1))"
  let ?s2 = "?s1\<lparr>timers := filter (\<lambda>(h, d, j). \<not> d \<le> T) (timers ?s1)\<rparr>"
  from all_short have "\<forall>(h, d, j) \<in> set ?due. is_fetch j \<longrightarrow> length (trim (fetch_code j)) < 3"
    by auto
  moreover from e1 have "inlineSuggestion ?s2 = []" by simp
  ultimately have "inlineSuggestion (fold (\<lambda>(h, d, j). run_task g j) ?due ?s2) = []"
    by (rule fold_short_keeps_empty [rotated])
  then have e2: "inlineSuggestion (advance g T ?s1) = []"
    by (simp add: advance_def Let_def)
  from logs e1 e2 show ?thesis by blast
qed

text \<open>
  C5, at the failing input. The provider is registered; the user types \<open>ab\<close>
  (invocation 0, trimmed length 2, below the minimum of 10) and 100 ms later \<open>c\<close>.
  No remote call is made, as the claim says. But the second invocation clears the timer
  of the first before it fires, so the guard of the first never runs and the only
  holder of its \<open>resolve\<close> is dropped: whatever happens later, no empty list (and
  nothing else) is ever returned for invocation 0.
\<close>

theorem C5_short_invocation_never_resolved:
  "length (trim (take 2 (js ''ab''))) < 10
   \<and> p_calls (run_plugin
        [HostInit 0 (Some (js ''k'')) NoThrow, Provide 0 (js ''ab'') 2,
         Provide 100 (js ''abc'') 3] new_plugin) = []
   \<and> map_of (resolved (run_plugin
        ([HostInit 0 (Some (js ''k'')) NoThrow, Provide 0 (js ''ab'') 2,
          Provide 100 (js ''abc'') 3] @ later) new_plugin)) 0 = None"
proof -
  have a: "length (trim (take 2 (js ''ab''))) < 10" by code_simp
  have b: "p_calls (run_plugin
        [HostInit 0 (Some (js ''k'')) NoThrow, Provide 0 (js ''ab'') 2,
         Provide 100 (js ''abc'') 3] new_plugin) = []"
    by code_simp
  have "abandoned 0 (run_plugin
        [HostInit 0 (Some (js ''k'')) NoThrow, Provide 0 (js ''ab'') 2,
         Provide 100 (js ''abc'') 3] new_plugin)"
    by code_simp
  then have "abandoned 0 (run_plugin later (run_plugin
        [HostInit 0 (Some (js ''k'')) NoThrow, Provide 0 (js ''ab'') 2,
         Provide 100 (js ''abc'') 3] new_plugin))"
    by (rule abandoned_run)
  then have c: "map_of (resolved (run_plugin
        ([HostInit 0 (Some (js ''k'')) NoThrow, Provide 0 (js ''ab'') 2,
          Provide 100 (js ''abc'') 3] @ later) new_plugin)) 0 = None"
    by (simp add: abandoned_def run_plugin_def)
  from a b c show ?thesis by blast
qed

end
